theory Spec2Isabelle
  imports Main "HOL-Library.Sublist"
begin

section \<open>The wiki link rewriter (\<open>.github/workflows/wiki_links.sh\<close>)\<close>

text \<open>
  The script walks \<open>docs/wiki\<close> and runs, on every regular file whose path ends in
  \<open>.md\<close>, the command
  \<^verbatim>\<open>sed -i "s/(.*\/\(.*\)\.md/(\1/g" "$file"\<close>.
  Inside the double quotes the shell keeps every backslash, so sed receives the basic
  regular expression \<^verbatim>\<open>(.*\/\(.*\)\.md\<close> and the replacement \<^verbatim>\<open>(\1\<close>.

  Modelling choices:
  \<^item> the pattern space is one line and never holds a newline, the script using no
    multi-line command;
  \<^item> the script does not set the locale. The substitution is given for the POSIX
    locale, where \<open>.\<close> matches every byte, and for a locale with characters of several
    bytes; the traversal is written with the first, which is also what sed does in
    any locale on a file whose lines are sequences of characters of that locale
    (\<open>sed_s_g_in_eq\<close>);
  \<^item> the file tree has no symbolic links (the tests \<open>-d\<close> and \<open>-f\<close> and the glob follow
    them, so a link to a directory would show the files below it under a second path);
  \<^item> the entries of a directory are listed in the order in which the shell expands the
    glob;
  \<^item> \<open>echo\<close> always succeeds.
\<close>

subsection \<open>Basic regular expressions of the shape the script uses\<close>

text \<open>
  An item of the pattern: a literal character, \<open>.*\<close>, or the group \<open>\(.*\)\<close>.
\<close>

datatype item = Lit char | AnyStar | Group_AnyStar

text \<open>
  All ways of cutting a text into the part a starred item consumes and the remainder,
  the longest consumed part first.
\<close>

fun splits :: "string \<Rightarrow> (string \<times> string) list" where
  "splits [] = [([], [])]"
| "splits (c # cs) = map (\<lambda>(p, q). (c # p, q)) (splits cs) @ [([], c # cs)]"

text \<open>
  \<open>pmatch pat s caps\<close> lists every match of \<open>pat\<close> anchored at the start of \<open>s\<close>, as the
  groups captured (after those of \<open>caps\<close>) and the text left after the match. Matches in
  which an earlier starred item is longer come first.
\<close>

fun pmatch :: "item list \<Rightarrow> string \<Rightarrow> string list \<Rightarrow> (string list \<times> string) list" where
  "pmatch [] s caps = [(caps, s)]"
| "pmatch (Lit c # its) s caps =
     (case s of [] \<Rightarrow> [] | x # xs \<Rightarrow> if x = c then pmatch its xs caps else [])"
| "pmatch (AnyStar # its) s caps =
     concat (map (\<lambda>(p, q). pmatch its q caps) (splits s))"
| "pmatch (Group_AnyStar # its) s caps =
     concat (map (\<lambda>(p, q). pmatch its q (caps @ [p])) (splits s))"

text \<open>
  The match sed takes at a given start (POSIX): the longest one; among the longest, the
  one whose starred items, from left to right, are longest. \<open>arg_min_list\<close> returns the
  first element with the least remainder. (For the pattern of the script this is also
  the first match of the list, see \<open>regexec_link_first\<close> below, so a matcher that
  backtracks from the longest alternative gives the same result.)
\<close>

definition regexec :: "item list \<Rightarrow> string \<Rightarrow> (string list \<times> string) option" where
  "regexec pat s =
     (case pmatch pat s [] of
        [] \<Rightarrow> None
      | m # ms \<Rightarrow> Some (arg_min_list (\<lambda>(caps, rest). length rest) (m # ms)))"

text \<open>The replacement text: literal characters and back-references \<open>\n\<close>.\<close>

datatype ritem = RLit char | Backref nat

fun expand :: "ritem list \<Rightarrow> string list \<Rightarrow> string" where
  "expand [] caps = []"
| "expand (RLit c # rs) caps = c # expand rs caps"
| "expand (Backref n # rs) caps =
     (if 1 \<le> n \<and> n \<le> length caps then caps ! (n - 1) else []) @ expand rs caps"

text \<open>The pattern \<^verbatim>\<open>(.*\/\(.*\)\.md\<close> and the replacement \<^verbatim>\<open>(\1\<close>.\<close>

definition link_pat :: "item list" where
  "link_pat = [Lit CHR ''('', AnyStar, Lit CHR ''/'', Group_AnyStar,
               Lit CHR ''.'', Lit CHR ''m'', Lit CHR ''d'']"

definition link_rep :: "ritem list" where
  "link_rep = [RLit CHR ''('', Backref 1]"

subsection \<open>A match consumes text\<close>

lemma splits_nonempty: "splits s \<noteq> []"
  by (cases s) simp_all

lemma set_splits: "set (splits s) = {(p, q). s = p @ q}"
proof (induction s)
  case Nil
  show ?case by auto
next
  case (Cons c cs)
  show ?case
    by (auto simp: Cons.IH Cons_eq_append_conv)
qed

lemma pmatch_suffix:
  "(caps', r) \<in> set (pmatch its s caps) \<Longrightarrow> suffix r s"
proof (induction its arbitrary: s caps)
  case Nil
  then show ?case by simp
next
  case (Cons i its)
  show ?case
  proof (cases i)
    case (Lit c)
    with Cons.prems obtain xs
      where s: "s = c # xs" and m: "(caps', r) \<in> set (pmatch its xs caps)"
      by (auto split: list.splits if_splits)
    from Cons.IH [OF m] show ?thesis by (simp add: s suffix_Cons)
  next
    case AnyStar
    with Cons.prems obtain p q
      where "s = p @ q" and m: "(caps', r) \<in> set (pmatch its q caps)"
      by (auto simp: set_splits)
    with Cons.IH [OF m] show ?thesis by (simp add: suffix_appendI)
  next
    case Group_AnyStar
    with Cons.prems obtain p q
      where "s = p @ q" and m: "(caps', r) \<in> set (pmatch its q (caps @ [p]))"
      by (auto simp: set_splits)
    with Cons.IH [OF m] show ?thesis by (simp add: suffix_appendI)
  qed
qed

lemma pmatch_Lit_shorter:
  "(caps', r) \<in> set (pmatch (Lit c # its) s caps) \<Longrightarrow> length r < length s"
  by (auto split: list.splits if_splits dest!: pmatch_suffix suffix_length_le)

lemma regexec_in:
  "regexec pat s = Some m \<Longrightarrow> m \<in> set (pmatch pat s [])"
proof -
  assume a: "regexec pat s = Some m"
  then obtain x xs where ms: "pmatch pat s [] = x # xs"
    by (auto simp: regexec_def split: list.splits)
  with a have "m = arg_min_list (\<lambda>(caps, rest). length rest) (x # xs)"
    by (simp add: regexec_def)
  moreover have "arg_min_list (\<lambda>(caps, rest). length rest) (x # xs) \<in> set (x # xs)"
    by (rule arg_min_list_in) simp
  ultimately show ?thesis using ms by simp
qed

lemma regexec_link_shorter:
  "regexec link_pat s = Some (caps, rest) \<Longrightarrow> length rest < length s"
  unfolding link_pat_def by (drule regexec_in) (erule pmatch_Lit_shorter)

subsection \<open>The substitution command and the in-place edit\<close>

text \<open>
  \<^verbatim>\<open>s/(.*\/\(.*\)\.md/(\1/g\<close> on one pattern space: sed looks for the leftmost start
  with a match, writes the replacement, and with the flag \<open>g\<close> goes on in the text after
  the match. Where no match starts, the character is copied.
\<close>

function sed_s_g :: "string \<Rightarrow> string" where
  "sed_s_g s =
     (case regexec link_pat s of
        Some (caps, rest) \<Rightarrow> expand link_rep caps @ sed_s_g rest
      | None \<Rightarrow> (case s of [] \<Rightarrow> [] | c # cs \<Rightarrow> c # sed_s_g cs))"
  by pat_completeness auto
termination
  by (relation "measure length") (auto dest: regexec_link_shorter)

text \<open>
  sed reads the file line by line: the text is cut at every newline, the command runs on
  each line, and the lines are written back with the newlines where they were (GNU sed
  adds no newline to a last line that has none).
\<close>

definition newline :: char where
  "newline = CHR 0x0A"

fun lines_of :: "string \<Rightarrow> string list" where
  "lines_of [] = [[]]"
| "lines_of (c # cs) =
     (if c = newline then [] # lines_of cs
      else (case lines_of cs of [] \<Rightarrow> [[c]] | l # ls \<Rightarrow> (c # l) # ls))"

fun unlines :: "string list \<Rightarrow> string" where
  "unlines [] = []"
| "unlines [l] = l"
| "unlines (l # l' # ls) = l @ newline # unlines (l' # ls)"

definition sed_script :: "string \<Rightarrow> string" where
  "sed_script content = unlines (map sed_s_g (lines_of content))"

subsection \<open>The locale\<close>

text \<open>
  The script does not set the locale, and what \<open>.\<close> matches depends on it. In the POSIX
  locale every byte is a character: this is \<open>pmatch\<close>, \<open>sed_s_g\<close> and \<open>sed_script\<close>
  above. In a locale with characters of several bytes, such as UTF-8, \<open>.\<close> matches a
  character and not a byte that belongs to none. The literal characters of the pattern
  are ASCII and match their byte in every locale.

  \<open>pmatch_in chars\<close> is the matcher for a locale in which a starred item consumes the
  texts \<open>p\<close> with \<open>chars p\<close>, the sequences of characters of the locale; \<open>sed_s_g_in\<close> and
  \<open>sed_script_in\<close> are the substitution and the edit of a content with it.
\<close>

fun pmatch_in ::
  "(string \<Rightarrow> bool) \<Rightarrow> item list \<Rightarrow> string \<Rightarrow> string list \<Rightarrow> (string list \<times> string) list"
  where
  "pmatch_in chars [] s caps = [(caps, s)]"
| "pmatch_in chars (Lit c # its) s caps =
     (case s of [] \<Rightarrow> [] | x # xs \<Rightarrow> if x = c then pmatch_in chars its xs caps else [])"
| "pmatch_in chars (AnyStar # its) s caps =
     concat (map (\<lambda>(p, q). if chars p then pmatch_in chars its q caps else []) (splits s))"
| "pmatch_in chars (Group_AnyStar # its) s caps =
     concat (map (\<lambda>(p, q). if chars p then pmatch_in chars its q (caps @ [p]) else [])
       (splits s))"

definition regexec_in ::
  "(string \<Rightarrow> bool) \<Rightarrow> item list \<Rightarrow> string \<Rightarrow> (string list \<times> string) option" where
  "regexec_in chars pat s =
     (case pmatch_in chars pat s [] of
        [] \<Rightarrow> None
      | m # ms \<Rightarrow> Some (arg_min_list (\<lambda>(caps, rest). length rest) (m # ms)))"

lemma pmatch_in_subset:
  "set (pmatch_in chars its s caps) \<subseteq> set (pmatch its s caps)"
proof (induction its arbitrary: s caps)
  case Nil
  show ?case by simp
next
  case (Cons i its)
  show ?case
  proof (cases i)
    case (Lit c)
    with Cons show ?thesis by (auto split: list.splits)
  next
    case AnyStar
    with Cons show ?thesis by (fastforce split: if_splits)
  next
    case Group_AnyStar
    with Cons show ?thesis by (fastforce split: if_splits)
  qed
qed

lemma regexec_in_in:
  "regexec_in chars pat s = Some m \<Longrightarrow> m \<in> set (pmatch_in chars pat s [])"
proof -
  assume a: "regexec_in chars pat s = Some m"
  then obtain x xs where ms: "pmatch_in chars pat s [] = x # xs"
    by (auto simp: regexec_in_def split: list.splits)
  with a have "m = arg_min_list (\<lambda>(caps, rest). length rest) (x # xs)"
    by (simp add: regexec_in_def)
  moreover have "arg_min_list (\<lambda>(caps, rest). length rest) (x # xs) \<in> set (x # xs)"
    by (rule arg_min_list_in) simp
  ultimately show ?thesis using ms by simp
qed

lemma regexec_in_link_shorter:
  "regexec_in chars link_pat s = Some (caps, rest) \<Longrightarrow> length rest < length s"
proof -
  assume "regexec_in chars link_pat s = Some (caps, rest)"
  then have "(caps, rest) \<in> set (pmatch_in chars link_pat s [])" by (rule regexec_in_in)
  then have "(caps, rest) \<in> set (pmatch link_pat s [])" using pmatch_in_subset by blast
  then show ?thesis unfolding link_pat_def by (rule pmatch_Lit_shorter)
qed

function sed_s_g_in :: "(string \<Rightarrow> bool) \<Rightarrow> string \<Rightarrow> string" where
  "sed_s_g_in chars s =
     (case regexec_in chars link_pat s of
        Some (caps, rest) \<Rightarrow> expand link_rep caps @ sed_s_g_in chars rest
      | None \<Rightarrow> (case s of [] \<Rightarrow> [] | c # cs \<Rightarrow> c # sed_s_g_in chars cs))"
  by pat_completeness auto
termination
  by (relation "measure (\<lambda>(chars, s). length s)") (auto dest: regexec_in_link_shorter)

definition sed_script_in :: "(string \<Rightarrow> bool) \<Rightarrow> string \<Rightarrow> string" where
  "sed_script_in chars content = unlines (map (sed_s_g_in chars) (lines_of content))"

text \<open>
  Well-formed UTF-8: characters of one to four bytes, no overlong form, no surrogate and
  nothing beyond U+10FFFF. In a UTF-8 locale every well-formed text is a sequence of
  characters, and a text that holds a byte such as \<open>0xFF\<close>, which no character has, is
  not. (On other ill-formed texts, forms of five or six bytes and surrogates or values
  beyond U+10FFFF written the UTF-8 way, the two matchers inside GNU sed are not at one;
  nothing below is said of them.)
\<close>

definition continuation :: "char \<Rightarrow> bool" where
  "continuation c \<longleftrightarrow> 0x80 \<le> (of_char c :: nat) \<and> (of_char c :: nat) \<le> 0xBF"

definition second_ok :: "char \<Rightarrow> char \<Rightarrow> bool" where
  "second_ok c c1 \<longleftrightarrow>
     (if (of_char c :: nat) = 0xE0 then 0xA0 \<le> (of_char c1 :: nat)
      else if (of_char c :: nat) = 0xED then (of_char c1 :: nat) < 0xA0
      else if (of_char c :: nat) = 0xF0 then 0x90 \<le> (of_char c1 :: nat)
      else if (of_char c :: nat) = 0xF4 then (of_char c1 :: nat) < 0x90
      else True)"

fun valid_utf8 :: "string \<Rightarrow> bool" where
  "valid_utf8 [] = True"
| "valid_utf8 (c # cs) =
     (if (of_char c :: nat) < 0x80 then valid_utf8 cs
      else if 0xC2 \<le> (of_char c :: nat) \<and> (of_char c :: nat) \<le> 0xDF then
        (case cs of
           c1 # cs1 \<Rightarrow> continuation c1 \<and> valid_utf8 cs1
         | _ \<Rightarrow> False)
      else if 0xE0 \<le> (of_char c :: nat) \<and> (of_char c :: nat) \<le> 0xEF then
        (case cs of
           c1 # c2 # cs2 \<Rightarrow>
             continuation c1 \<and> continuation c2 \<and> second_ok c c1 \<and> valid_utf8 cs2
         | _ \<Rightarrow> False)
      else if 0xF0 \<le> (of_char c :: nat) \<and> (of_char c :: nat) \<le> 0xF4 then
        (case cs of
           c1 # c2 # c3 # cs3 \<Rightarrow>
             continuation c1 \<and> continuation c2 \<and> continuation c3 \<and> second_ok c c1
             \<and> valid_utf8 cs3
         | _ \<Rightarrow> False)
      else False)"

text \<open>
  \<open>delimited chars l\<close>: in the line \<open>l\<close>, what stands between a parenthesis and a later
  slash, and between a slash and a later \<open>.md\<close>, is a sequence of characters. The starred
  items of the pattern can then consume whatever the pattern asks of them.
\<close>

definition delimited :: "(string \<Rightarrow> bool) \<Rightarrow> string \<Rightarrow> bool" where
  "delimited chars l \<longleftrightarrow>
     (\<forall>pre a g r. l = pre @ ''('' @ a @ ''/'' @ g @ ''.md'' @ r \<longrightarrow> chars a \<and> chars g)"

subsection \<open>The file tree, the output streams and the traversal\<close>

text \<open>
  What sed can do with a regular file: read it and replace it, or fail because the file
  cannot be read, or because the edited copy cannot be written.
\<close>

datatype perm = Read_write | Unreadable | Unwritable

text \<open>
  A directory entry is a regular file (\<open>-f\<close>), a directory (\<open>-d\<close>), or something else
  (a socket, a device, ...), for which both tests fail. \<open>Locked\<close> is a directory that
  the user who runs the script cannot list or cannot search: the test \<open>-d\<close> holds for
  it, but nothing can be found below it.
\<close>

datatype entry =
    File perm string
  | Dir "(string \<times> entry) list"
  | Other
  | Locked "(string \<times> entry) list"

record io =
  out :: "string list"
  err :: "string list"

definition echo :: "string \<Rightarrow> io \<Rightarrow> io \<times> nat" where
  "echo msg s = (s\<lparr>out := out s @ [msg]\<rparr>, 0)"

datatype sed_error = Cannot_read string | Cannot_write string

fun sed_i :: "string \<Rightarrow> perm \<Rightarrow> string \<Rightarrow> sed_error + string" where
  "sed_i file Read_write content = Inr (sed_script content)"
| "sed_i file Unreadable content = Inl (Cannot_read file)"
| "sed_i file Unwritable content = Inl (Cannot_write file)"

text \<open>
  The messages of GNU sed. For the edited copy sed makes a temporary file in the
  directory of the file, with a name \<open>sed\<close> and six characters that it picks anew at each
  run; \<open>XXXXXX\<close> stands for them.
\<close>

definition dirname :: "string \<Rightarrow> string" where
  "dirname file =
     (if CHR ''/'' \<in> set file
      then rev (tl (dropWhile (\<lambda>c. c \<noteq> CHR ''/'') (rev file))) else ''.'')"

fun diagnostic :: "sed_error \<Rightarrow> string" where
  "diagnostic (Cannot_read file) = ''sed: can't read '' @ file @ '': Permission denied''"
| "diagnostic (Cannot_write file) =
     ''sed: couldn't open temporary file '' @ dirname file @ ''/sedXXXXXX: Permission denied''"

fun exit_code :: "sed_error \<Rightarrow> nat" where
  "exit_code (Cannot_read file) = 2"
| "exit_code (Cannot_write file) = 4"

text \<open>
  The command \<open>sed -i ... "$file"\<close> as the shell sees it: the new content of the file,
  the streams, and the exit status. A failing sed writes its diagnostic to the error
  stream and leaves the file as it was.
\<close>

definition sed_cmd :: "string \<Rightarrow> perm \<Rightarrow> string \<Rightarrow> io \<Rightarrow> string \<times> io \<times> nat" where
  "sed_cmd file p content s =
     (case sed_i file p content of
        Inr content' \<Rightarrow> (content', s, 0)
      | Inl e \<Rightarrow> (content, s\<lparr>err := err s @ [diagnostic e]\<rparr>, exit_code e))"

text \<open>The glob \<open>*\<close> matches no name that starts with a dot.\<close>

fun hidden :: "string \<Rightarrow> bool" where
  "hidden [] = False"
| "hidden (c # cs) = (c = CHR ''.'')"

text \<open>
  \<open>loop_body file e\<close> is the body of the \<open>for\<close> loop for \<open>$file\<close>, the entry there being
  \<open>e\<close>; \<open>collect_files dir es\<close> is the loop over \<open>"$1"/*\<close>, for \<open>$1 = dir\<close> with the entries
  \<open>es\<close>. An entry the glob does not match is passed over. With no entry matched the
  shell leaves the pattern as it is, a path at which there is nothing: both tests fail.
  This is also what happens in a directory that cannot be listed; in one that can be
  listed but not searched the tests fail for every name. In both cases the call for a
  \<open>Locked\<close> directory changes nothing and prints nothing. The status of sed is not looked
  at.
\<close>

fun loop_body :: "string \<Rightarrow> entry \<Rightarrow> io \<Rightarrow> entry \<times> io"
  and collect_files :: "string \<Rightarrow> (string \<times> entry) list \<Rightarrow> io \<Rightarrow> (string \<times> entry) list \<times> io"
  where
  "loop_body file (Dir es) s =
     (let (es', s') = collect_files file es s in (Dir es', s'))"
| "loop_body file (File p content) s =
     (if suffix ''.md'' file then
        (let (s1, _) = echo (''Transforming links in '' @ file) s;
             (content', s2, _) = sed_cmd file p content s1
         in (File p content', s2))
      else (File p content, s))"
| "loop_body file Other s = (Other, s)"
| "loop_body file (Locked es) s = (Locked es, s)"
| "collect_files dir [] s = ([], s)"
| "collect_files dir ((name, e) # es) s =
     (if hidden name then
        (let (es', s') = collect_files dir es s in ((name, e) # es', s'))
      else
        (let (e', s1) = loop_body (dir @ ''/'' @ name) e s;
             (es', s2) = collect_files dir es s1
         in ((name, e') # es', s2)))"

text \<open>
  The script: \<open>collect_files docs/wiki\<close>, then the closing message. \<open>wiki\<close> is what is at
  \<open>docs/wiki\<close> (\<open>None\<close>: nothing). The exit status is that of the last command.
\<close>

definition io0 :: io where
  "io0 = \<lparr>out = [], err = []\<rparr>"

definition main :: "entry option \<Rightarrow> entry option \<times> io \<times> nat" where
  "main wiki =
     (let (wiki', s1) =
            (case wiki of
               Some (Dir es) \<Rightarrow>
                 (let (es', s) = collect_files ''docs/wiki'' es io0 in (Some (Dir es'), s))
             | _ \<Rightarrow> (wiki, io0));
          (s2, status) = echo ''Links transformed successfully!'' s1
      in (wiki', s2, status))"

section \<open>The link shape of the specification\<close>

text \<open>
  The specification speaks of a text \<open>(<path>/<name>.md\<close>: an opening parenthesis, later a
  slash, later \<open>.md\<close>. \<open>has_link l\<close> says that the line \<open>l\<close> holds such a text;
  \<open>slash_then_md\<close> is the part after the parenthesis.
\<close>

fun slash_then_md :: "string \<Rightarrow> bool" where
  "slash_then_md [] = False"
| "slash_then_md (c # cs) = ((c = CHR ''/'' \<and> sublist ''.md'' cs) \<or> slash_then_md cs)"

fun has_link :: "string \<Rightarrow> bool" where
  "has_link [] = False"
| "has_link (c # cs) = ((c = CHR ''('' \<and> slash_then_md cs) \<or> has_link cs)"

text \<open>
  The region of a line that the substitution replaces, as the text \<open>pre\<close> before it, the
  text \<open>g\<close> kept of it and the text \<open>r\<close> after it: \<open>pre\<close> ends where the first match
  of the line starts, \<open>r\<close> starts after the last \<open>.md\<close> of the line, and \<open>g\<close> lies between
  the last slash before that \<open>.md\<close> and it.
\<close>

definition region :: "string \<Rightarrow> string \<Rightarrow> string \<Rightarrow> string \<Rightarrow> bool" where
  "region l pre g r \<longleftrightarrow>
     (\<exists>m u. l = pre @ m \<and> pmatch link_pat m [] \<noteq> []
        \<and> (\<forall>k<length pre. pmatch link_pat (drop k l) [] = [])
        \<and> l = u @ ''/'' @ g @ ''.md'' @ r \<and> CHR ''/'' \<notin> set g \<and> \<not> sublist ''.md'' r)"

section \<open>The tree as the list of its regular files\<close>

text \<open>
  A regular file of the tree, with its path, whether the traversal can reach it (no name
  on the way to it starts with a dot and every directory on the way can be listed and
  searched), what sed can do with it, and its content.
\<close>

record listing =
  l_path :: string
  l_visible :: bool
  l_perm :: perm
  l_content :: string

fun files_of :: "bool \<Rightarrow> string \<Rightarrow> entry \<Rightarrow> listing list"
  and files_in :: "bool \<Rightarrow> string \<Rightarrow> (string \<times> entry) list \<Rightarrow> listing list"
  where
  "files_of vis file (File p content) =
     [\<lparr>l_path = file, l_visible = vis, l_perm = p, l_content = content\<rparr>]"
| "files_of vis file (Dir es) = files_in vis file es"
| "files_of vis file Other = []"
| "files_of vis file (Locked es) = files_in False file es"
| "files_in vis dir [] = []"
| "files_in vis dir ((name, e) # es) =
     files_of (vis \<and> \<not> hidden name) (dir @ ''/'' @ name) e @ files_in vis dir es"

text \<open>
  The files the script is after: reachable, with a path that ends in \<open>.md\<close>. What a run
  should make of a file, the progress line it prints for it, and what sed reports on it.
\<close>

definition target :: "listing \<Rightarrow> bool" where
  "target f = (l_visible f \<and> suffix ''.md'' (l_path f))"

definition rewritten :: "listing \<Rightarrow> listing" where
  "rewritten f =
     (if target f \<and> l_perm f = Read_write
      then f\<lparr>l_content := sed_script (l_content f)\<rparr> else f)"

definition progress :: "listing \<Rightarrow> string" where
  "progress f = ''Transforming links in '' @ l_path f"

definition complaint :: "listing \<Rightarrow> string list" where
  "complaint f =
     (case sed_i (l_path f) (l_perm f) (l_content f) of
        Inl e \<Rightarrow> [diagnostic e]
      | Inr content' \<Rightarrow> [])"

section \<open>Matches of the pattern\<close>

lemma splits_append:
  "splits (u @ v) =
     map (\<lambda>(p, q). (u @ p, q)) (splits v) @ map (\<lambda>(p, q). (p, q @ v)) (tl (splits u))"
proof (induction u)
  case Nil
  show ?case by simp
next
  case (Cons x u)
  have "tl (splits (x # u)) = tl (map (\<lambda>(p, q). (x # p, q)) (splits u)) @ [([], x # u)]"
    using splits_nonempty [of u] by simp
  then show ?case
    by (simp add: Cons.IH map_tl case_prod_unfold comp_def)
qed

lemma concat_splits_first:
  assumes later: "\<And>p q. v = p @ q \<Longrightarrow> F (u @ x # p) q = []"
  shows "concat (map (\<lambda>(p, q). F p q) (splits (u @ x # v)))
           = F u (x # v) @ concat (map (\<lambda>(p, q). F p (q @ x # v)) (tl (splits u)))"
proof -
  have "concat (map (\<lambda>(p, q). F (u @ x # p) q) (splits v)) = []"
    using later by (auto simp: set_splits)
  then show ?thesis
    by (simp add: splits_append case_prod_unfold comp_def)
qed

lemma pmatch_md_iff:
  "pmatch [Lit CHR ''.'', Lit CHR ''m'', Lit CHR ''d''] s caps =
     (if prefix ''.md'' s then [(caps, drop 3 s)] else [])"
  by (auto split: list.splits simp: prefix_def)


lemma md_not_straddling:
  assumes "\<not> sublist ''.md'' r" and "''md'' @ r = p @ q"
  shows "\<not> prefix ''.md'' q"
proof
  assume "prefix ''.md'' q"
  then obtain q' where q: "q = ''.md'' @ q'" by (auto simp: prefix_def)
  with assms(2) have "''md'' @ r = p @ ''.md'' @ q'" by simp
  then have "\<exists>p'. r = p' @ ''.md'' @ q'"
    by (cases p; cases "tl p") (auto simp: Cons_eq_append_conv)
  with assms(1) show False by (auto simp: sublist_def)
qed

lemma pmatch_group_md:
  assumes "\<not> sublist ''.md'' r"
  shows "\<exists>ms. pmatch [Group_AnyStar, Lit CHR ''.'', Lit CHR ''m'', Lit CHR ''d'']
                 (g @ ''.md'' @ r) caps = (caps @ [g], r) # ms"
proof -
  let ?F = "\<lambda>p q. pmatch [Lit CHR ''.'', Lit CHR ''m'', Lit CHR ''d''] q (caps @ [p])"
  have "concat (map (\<lambda>(p, q). ?F p q) (splits (g @ CHR ''.'' # (''md'' @ r))))
          = ?F g (CHR ''.'' # (''md'' @ r))
            @ concat (map (\<lambda>(p, q). ?F p (q @ CHR ''.'' # (''md'' @ r))) (tl (splits g)))"
  proof (rule concat_splits_first)
    fix p q assume "''md'' @ r = p @ q"
    with assms have "\<not> prefix ''.md'' q" by (rule md_not_straddling)
    then show "?F (g @ CHR ''.'' # p) q = []"
      by (simp only: pmatch_md_iff if_False)
  qed
  then show ?thesis by simp
qed


lemma occurs_after:
  "xs @ ys = us @ c # w \<Longrightarrow> c \<notin> set xs \<Longrightarrow> \<exists>vs. ys = vs @ c # w"
proof (induction xs arbitrary: us)
  case Nil
  then show ?case by auto
next
  case (Cons x xs)
  then show ?case by (cases us) auto
qed

lemma pmatch_Nil_iff:
  "(caps', r) \<in> set (pmatch [] s caps) \<longleftrightarrow> caps' = caps \<and> r = s"
  by auto

lemma pmatch_Lit_iff:
  "(caps', r) \<in> set (pmatch (Lit c # its) s caps) \<longleftrightarrow>
     (\<exists>xs. s = c # xs \<and> (caps', r) \<in> set (pmatch its xs caps))"
  by (auto split: list.splits)

lemma pmatch_AnyStar_iff:
  "(caps', r) \<in> set (pmatch (AnyStar # its) s caps) \<longleftrightarrow>
     (\<exists>p q. s = p @ q \<and> (caps', r) \<in> set (pmatch its q caps))"
  by (auto simp: set_splits)

lemma pmatch_Group_iff:
  "(caps', r) \<in> set (pmatch (Group_AnyStar # its) s caps) \<longleftrightarrow>
     (\<exists>p q. s = p @ q \<and> (caps', r) \<in> set (pmatch its q (caps @ [p])))"
  by (auto simp: set_splits)

lemmas pmatch_iffs = pmatch_Nil_iff pmatch_Lit_iff pmatch_AnyStar_iff pmatch_Group_iff

lemma pmatch_link_set:
  "(caps, r) \<in> set (pmatch link_pat s []) \<longleftrightarrow>
     (\<exists>a g. s = ''('' @ a @ ''/'' @ g @ ''.md'' @ r \<and> caps = [g])"
  unfolding link_pat_def pmatch_iffs by auto


lemma nonempty_has_pair: "xs \<noteq> [] \<Longrightarrow> \<exists>a b. (a, b) \<in> set xs"
  by (cases xs) (simp, force)

lemma slash_blocked:
  assumes "CHR ''/'' \<notin> set g" and "\<not> sublist ''.md'' r" and "g @ ''.md'' @ r = p @ q"
  shows "pmatch [Lit CHR ''/'', Group_AnyStar, Lit CHR ''.'', Lit CHR ''m'', Lit CHR ''d''] q caps = []"
proof (rule ccontr)
  assume "\<not> ?thesis"
  then obtain caps' r' where
    "(caps', r') \<in> set (pmatch [Lit CHR ''/'', Group_AnyStar,
        Lit CHR ''.'', Lit CHR ''m'', Lit CHR ''d''] q caps)"
    by (blast dest: nonempty_has_pair)
  then obtain w where q: "q = CHR ''/'' # w" and w: "sublist ''.md'' w"
    unfolding pmatch_iffs by (auto simp: sublist_def)
  from assms(3) q have "g @ (''.md'' @ r) = p @ CHR ''/'' # w" by simp
  from occurs_after [OF this assms(1)] obtain vs where "''.md'' @ r = vs @ CHR ''/'' # w" ..
  then have "\<exists>vs'. r = vs' @ CHR ''/'' # w"
    by (cases vs; cases "tl vs"; cases "tl (tl vs)") auto
  then have "suffix w r" by (auto simp: suffix_def)
  with w have "sublist ''.md'' r"
    using sublist_order.order.trans suffix_imp_sublist by blast
  with assms(2) show False ..
qed

lemma pmatch_star_slash:
  assumes "CHR ''/'' \<notin> set g" and "\<not> sublist ''.md'' r"
  shows "\<exists>ms. pmatch [AnyStar, Lit CHR ''/'', Group_AnyStar,
                  Lit CHR ''.'', Lit CHR ''m'', Lit CHR ''d'']
                 (a @ CHR ''/'' # g @ ''.md'' @ r) caps = (caps @ [g], r) # ms"
proof -
  let ?T = "[Lit CHR ''/'', Group_AnyStar, Lit CHR ''.'', Lit CHR ''m'', Lit CHR ''d'']"
  let ?F = "\<lambda>p q. pmatch ?T q caps"
  let ?v = "g @ ''.md'' @ r"
  have "concat (map (\<lambda>(p, q). ?F p q) (splits (a @ CHR ''/'' # ?v)))
          = ?F a (CHR ''/'' # ?v)
            @ concat (map (\<lambda>(p, q). ?F p (q @ CHR ''/'' # ?v)) (tl (splits a)))"
  proof (rule concat_splits_first)
    fix p q assume "?v = p @ q"
    with assms show "?F (a @ CHR ''/'' # p) q = []" by (rule slash_blocked)
  qed
  moreover obtain ms where "?F a (CHR ''/'' # ?v) = (caps @ [g], r) # ms"
    using pmatch_group_md [OF assms(2), of g caps] by auto
  ultimately show ?thesis by simp
qed

lemma last_md_shortest:
  assumes "u @ ''.md'' @ r = u' @ ''.md'' @ r'" and "\<not> sublist ''.md'' r"
  shows "length r \<le> length r'"
proof -
  from assms(1) consider us where "u = u' @ us" "us @ ''.md'' @ r = ''.md'' @ r'"
    | us where "u @ us = u'" "''.md'' @ r = us @ ''.md'' @ r'"
    by (auto simp: append_eq_append_conv2)
  then show ?thesis
  proof cases
    case 1
    from 1(2) have "length (us @ ''.md'' @ r) = length (''.md'' @ r')" by (rule arg_cong)
    then show ?thesis by simp
  next
    case 2
    from 2(2) have "r = r' \<or> (\<exists>us'. r = us' @ ''.md'' @ r')"
      by (cases us; cases "tl us"; cases "tl (tl us)") auto
    with assms(2) show ?thesis by (auto simp: sublist_def)
  qed
qed

lemma arg_min_list_hd:
  assumes "\<forall>y \<in> set ms. f x \<le> f y"
  shows "arg_min_list f (x # ms) = x"
proof (cases ms)
  case Nil
  then show ?thesis by simp
next
  case (Cons y zs)
  have "arg_min_list f (y # zs) \<in> set (y # zs)" by (rule arg_min_list_in) simp
  with assms Cons have "f x \<le> f (arg_min_list f (y # zs))" by blast
  with Cons show ?thesis by (simp add: Let_def)
qed

lemma regexec_link:
  assumes "CHR ''/'' \<notin> set g" and "\<not> sublist ''.md'' r"
  shows "regexec link_pat (''('' @ a @ ''/'' @ g @ ''.md'' @ r) = Some ([g], r)"
proof -
  let ?s = "''('' @ a @ ''/'' @ g @ ''.md'' @ r"
  obtain ms where ms: "pmatch link_pat ?s [] = ([g], r) # ms"
    using pmatch_star_slash [OF assms, of a "[]"] by (auto simp: link_pat_def)
  have "\<forall>y \<in> set ms. length r \<le> (case y of (caps, rest) \<Rightarrow> length rest)"
  proof
    fix y assume "y \<in> set ms"
    then have "(fst y, snd y) \<in> set (pmatch link_pat ?s [])" unfolding ms by simp
    then obtain a' g' where "?s = ''('' @ a' @ ''/'' @ g' @ ''.md'' @ snd y"
      unfolding pmatch_link_set by blast
    then have "(a @ ''/'' @ g) @ ''.md'' @ r = (a' @ ''/'' @ g') @ ''.md'' @ snd y" by simp
    from last_md_shortest [OF this assms(2)]
    show "length r \<le> (case y of (caps, rest) \<Rightarrow> length rest)"
      by (simp add: case_prod_unfold)
  qed
  then have "arg_min_list (\<lambda>(caps, rest). length rest) (([g], r) # ms) = ([g], r)"
    by (intro arg_min_list_hd) simp
  then show ?thesis unfolding regexec_def ms by (simp del: arg_min_list.simps)
qed

section \<open>The substitution in closed form\<close>

declare sed_s_g.simps [simp del]

lemma slash_then_md_iff:
  "slash_then_md s \<longleftrightarrow> (\<exists>a g r. s = a @ ''/'' @ g @ ''.md'' @ r)"
proof (induction s)
  case Nil
  show ?case by simp
next
  case (Cons c cs)
  show ?case
  proof
    assume "slash_then_md (c # cs)"
    then consider "c = CHR ''/''" "sublist ''.md'' cs" | "slash_then_md cs" by auto
    then show "\<exists>a g r. c # cs = a @ ''/'' @ g @ ''.md'' @ r"
    proof cases
      case 1
      then obtain g r where "cs = g @ ''.md'' @ r" by (auto simp: sublist_def)
      with 1 have "c # cs = [] @ ''/'' @ g @ ''.md'' @ r" by simp
      then show ?thesis by blast
    next
      case 2
      then obtain a g r where "cs = a @ ''/'' @ g @ ''.md'' @ r" using Cons.IH by blast
      then have "c # cs = (c # a) @ ''/'' @ g @ ''.md'' @ r" by simp
      then show ?thesis by blast
    qed
  next
    assume "\<exists>a g r. c # cs = a @ ''/'' @ g @ ''.md'' @ r"
    then obtain a g r where s: "c # cs = a @ ''/'' @ g @ ''.md'' @ r" by blast
    show "slash_then_md (c # cs)"
    proof (cases a)
      case Nil
      with s have "c = CHR ''/''" and "cs = g @ ''.md'' @ r" by auto
      then show ?thesis by (auto simp: sublist_def)
    next
      case (Cons x a')
      with s have "cs = a' @ ''/'' @ g @ ''.md'' @ r" by simp
      then have "slash_then_md cs" using Cons.IH by blast
      then show ?thesis by simp
    qed
  qed
qed

lemma has_link_iff:
  "has_link l \<longleftrightarrow> (\<exists>pre a g r. l = pre @ ''('' @ a @ ''/'' @ g @ ''.md'' @ r)"
proof (induction l)
  case Nil
  show ?case by simp
next
  case (Cons c cs)
  show ?case
  proof
    assume "has_link (c # cs)"
    then consider "c = CHR ''(''" "slash_then_md cs" | "has_link cs" by auto
    then show "\<exists>pre a g r. c # cs = pre @ ''('' @ a @ ''/'' @ g @ ''.md'' @ r"
    proof cases
      case 1
      then obtain a g r where "cs = a @ ''/'' @ g @ ''.md'' @ r"
        unfolding slash_then_md_iff by blast
      with 1 have "c # cs = [] @ ''('' @ a @ ''/'' @ g @ ''.md'' @ r" by simp
      then show ?thesis by blast
    next
      case 2
      then obtain pre a g r where "cs = pre @ ''('' @ a @ ''/'' @ g @ ''.md'' @ r"
        using Cons.IH by blast
      then have "c # cs = (c # pre) @ ''('' @ a @ ''/'' @ g @ ''.md'' @ r" by simp
      then show ?thesis by blast
    qed
  next
    assume "\<exists>pre a g r. c # cs = pre @ ''('' @ a @ ''/'' @ g @ ''.md'' @ r"
    then obtain pre a g r where s: "c # cs = pre @ ''('' @ a @ ''/'' @ g @ ''.md'' @ r"
      by blast
    show "has_link (c # cs)"
    proof (cases pre)
      case Nil
      with s have "c = CHR ''(''" and "cs = a @ ''/'' @ g @ ''.md'' @ r" by auto
      then have "c = CHR ''(''" and "slash_then_md cs" unfolding slash_then_md_iff by blast+
      then show ?thesis by simp
    next
      case (Cons x pre')
      with s have "cs = pre' @ ''('' @ a @ ''/'' @ g @ ''.md'' @ r" by simp
      then have "has_link cs" using Cons.IH by blast
      then show ?thesis by simp
    qed
  qed
qed

lemma pmatch_link_nonempty_iff:
  "pmatch link_pat s [] \<noteq> [] \<longleftrightarrow> (\<exists>cs. s = CHR ''('' # cs \<and> slash_then_md cs)"
proof
  assume "pmatch link_pat s [] \<noteq> []"
  then obtain caps r where "(caps, r) \<in> set (pmatch link_pat s [])"
    by (blast dest: nonempty_has_pair)
  then obtain a g where "s = ''('' @ a @ ''/'' @ g @ ''.md'' @ r"
    unfolding pmatch_link_set by blast
  then have "s = CHR ''('' # (a @ ''/'' @ g @ ''.md'' @ r)" by simp
  moreover have "slash_then_md (a @ ''/'' @ g @ ''.md'' @ r)"
    unfolding slash_then_md_iff by blast
  ultimately show "\<exists>cs. s = CHR ''('' # cs \<and> slash_then_md cs" by blast
next
  assume "\<exists>cs. s = CHR ''('' # cs \<and> slash_then_md cs"
  then obtain a g r where "s = ''('' @ a @ ''/'' @ g @ ''.md'' @ r"
    unfolding slash_then_md_iff by auto
  then have "([g], r) \<in> set (pmatch link_pat s [])"
    unfolding pmatch_link_set by blast
  then show "pmatch link_pat s [] \<noteq> []" by auto
qed

lemma regexec_None_iff: "regexec pat s = None \<longleftrightarrow> pmatch pat s [] = []"
  by (simp add: regexec_def split: list.splits del: arg_min_list.simps)

lemma sed_s_g_Nil: "sed_s_g [] = []"
  by (subst sed_s_g.simps) (simp add: regexec_def link_pat_def)

lemma sed_s_g_skip:
  assumes "\<not> (c = CHR ''('' \<and> slash_then_md cs)"
  shows "sed_s_g (c # cs) = c # sed_s_g cs"
proof -
  from assms have "pmatch link_pat (c # cs) [] = []"
    using pmatch_link_nonempty_iff [of "c # cs"] by auto
  then have "regexec link_pat (c # cs) = None" by (simp only: regexec_None_iff)
  then show ?thesis by (subst sed_s_g.simps) simp
qed

lemma sed_s_g_match:
  assumes "regexec link_pat s = Some ([g], r)"
  shows "sed_s_g s = ''('' @ g @ sed_s_g r"
  by (subst sed_s_g.simps) (simp add: assms link_rep_def)

lemma sed_s_g_no_link: "\<not> has_link l \<Longrightarrow> sed_s_g l = l"
proof (induction l)
  case Nil
  show ?case by (rule sed_s_g_Nil)
next
  case (Cons c cs)
  then show ?case by (simp add: sed_s_g_skip)
qed

lemma no_md_no_link: "\<not> sublist ''.md'' r \<Longrightarrow> \<not> has_link r"
  unfolding has_link_iff sublist_def by (metis append.assoc)

lemma sed_s_g_closed:
  assumes "CHR ''('' \<notin> set pre" and "CHR ''/'' \<notin> set g" and "\<not> sublist ''.md'' r"
  shows "sed_s_g (pre @ ''('' @ a @ ''/'' @ g @ ''.md'' @ r) = pre @ ''('' @ g @ r"
  using assms(1)
proof (induction pre)
  case Nil
  have "sed_s_g (''('' @ a @ ''/'' @ g @ ''.md'' @ r) = ''('' @ g @ sed_s_g r"
    by (rule sed_s_g_match) (rule regexec_link [OF assms(2,3)])
  moreover have "sed_s_g r = r" using assms(3) by (intro sed_s_g_no_link no_md_no_link)
  ultimately show ?case by simp
next
  case (Cons c pre)
  then have "sed_s_g (c # (pre @ ''('' @ a @ ''/'' @ g @ ''.md'' @ r))
               = c # sed_s_g (pre @ ''('' @ a @ ''/'' @ g @ ''.md'' @ r)"
    by (intro sed_s_g_skip) auto
  with Cons show ?case by simp
qed

lemma first_occurrence:
  "pre0 @ c # t0 = pre @ c # t \<Longrightarrow> c \<notin> set pre \<Longrightarrow> \<exists>x. t = x @ t0"
proof (induction pre0 arbitrary: pre)
  case Nil
  then show ?case by (cases pre) auto
next
  case (Cons y pre0)
  show ?case
  proof (cases pre)
    case Nil
    with Cons.prems show ?thesis by auto
  next
    case (Cons z pre')
    with Cons.prems have "pre0 @ c # t0 = pre' @ c # t" and "c \<notin> set pre'" by auto
    then show ?thesis by (rule Cons.IH)
  qed
qed

lemma prefix_of_append_eq:
  "a @ x = b @ y \<Longrightarrow> length b \<le> length a \<Longrightarrow> prefix b a"
  by (auto simp: append_eq_append_conv2 prefix_def)

lemma last_md_exists:
  "sublist ''.md'' w \<Longrightarrow> \<exists>v r. w = v @ ''.md'' @ r \<and> \<not> sublist ''.md'' r"
proof (induction w)
  case Nil
  then show ?case by simp
next
  case (Cons c w)
  show ?case
  proof (cases "sublist ''.md'' w")
    case True
    then obtain v r where "w = v @ ''.md'' @ r" and r: "\<not> sublist ''.md'' r"
      using Cons.IH by blast
    then have "c # w = (c # v) @ ''.md'' @ r" by simp
    with r show ?thesis by blast
  next
    case False
    with Cons.prems have "prefix ''.md'' (c # w)" by (simp add: sublist_Cons_right)
    then obtain r where cw: "c # w = ''.md'' @ r" by (auto simp: prefix_def)
    then have "suffix r w" by (auto simp: suffix_def)
    with False have "\<not> sublist ''.md'' r"
      using sublist_order.order.trans suffix_imp_sublist by blast
    with cw have "c # w = [] @ ''.md'' @ r \<and> \<not> sublist ''.md'' r" by simp
    then show ?thesis by blast
  qed
qed

lemma link_decomp:
  assumes "has_link l"
  shows "\<exists>pre a g r. l = pre @ ''('' @ a @ ''/'' @ g @ ''.md'' @ r
           \<and> CHR ''('' \<notin> set pre \<and> CHR ''/'' \<notin> set g \<and> \<not> sublist ''.md'' r"
proof -
  from assms obtain pre0 a0 g0 r0 where l0: "l = pre0 @ ''('' @ a0 @ ''/'' @ g0 @ ''.md'' @ r0"
    unfolding has_link_iff by blast
  then have "CHR ''('' \<in> set l" by simp
  then obtain pre t where l: "l = pre @ CHR ''('' # t" and pre: "CHR ''('' \<notin> set pre"
    by (blast dest: split_list_first)
  from l0 l have "pre0 @ CHR ''('' # (a0 @ ''/'' @ g0 @ ''.md'' @ r0) = pre @ CHR ''('' # t"
    by simp
  from first_occurrence [OF this pre] obtain x where t: "t = x @ a0 @ ''/'' @ g0 @ ''.md'' @ r0" ..
  then have "sublist ''.md'' t" by (auto simp: sublist_def) (metis append.assoc append_Cons)
  then obtain v r where tv: "t = v @ ''.md'' @ r" and r: "\<not> sublist ''.md'' r"
    by (blast dest: last_md_exists)
  from t tv have eq: "v @ ''.md'' @ r = (x @ a0 @ ''/'' @ g0) @ ''.md'' @ r0" by simp
  from last_md_shortest [OF eq r] have "length r \<le> length r0" .
  moreover have "length (v @ ''.md'' @ r) = length ((x @ a0 @ ''/'' @ g0) @ ''.md'' @ r0)"
    using eq by (rule arg_cong)
  ultimately have "length (x @ a0 @ ''/'' @ g0) \<le> length v" by simp
  then have "prefix (x @ a0 @ ''/'' @ g0) v"
    by (intro prefix_of_append_eq [OF eq])
  then have "CHR ''/'' \<in> set v" by (auto simp: prefix_def)
  then obtain a g where v: "v = a @ CHR ''/'' # g" and g: "CHR ''/'' \<notin> set g"
    by (blast dest: split_list_last)
  from l tv v have "l = pre @ ''('' @ a @ ''/'' @ g @ ''.md'' @ r" by simp
  with pre g r show ?thesis by blast
qed

text \<open>
  For this pattern the longest match is also the first one that a matcher finds which
  tries the longer alternative of every starred item first.
\<close>

lemma regexec_link_first:
  "regexec link_pat s = (case pmatch link_pat s [] of [] \<Rightarrow> None | m # ms \<Rightarrow> Some m)"
proof (cases "pmatch link_pat s []")
  case Nil
  then show ?thesis by (simp add: regexec_def)
next
  case (Cons m ms)
  then have "pmatch link_pat s [] \<noteq> []" by simp
  then obtain cs where s: "s = CHR ''('' # cs" and "slash_then_md cs"
    unfolding pmatch_link_nonempty_iff by blast
  then have "has_link s" by simp
  from link_decomp [OF this] obtain pre a g r where
    d: "s = pre @ ''('' @ a @ ''/'' @ g @ ''.md'' @ r" and pre: "CHR ''('' \<notin> set pre"
    and g: "CHR ''/'' \<notin> set g" and r: "\<not> sublist ''.md'' r" by blast
  from s d pre have "pre = []" by (cases pre) auto
  with d have s': "s = ''('' @ a @ ''/'' @ g @ ''.md'' @ r" by simp
  obtain ms' where "pmatch link_pat s [] = ([g], r) # ms'"
    unfolding s' using pmatch_star_slash [OF g r, of a "[]"] by (auto simp: link_pat_def)
  with Cons have "m = ([g], r)" by simp
  moreover have "regexec link_pat s = Some ([g], r)"
    unfolding s' by (rule regexec_link [OF g r])
  ultimately show ?thesis by (simp add: Cons)
qed

lemma no_link_after:
  assumes "CHR ''('' \<notin> set pre" and "CHR ''/'' \<notin> set g" and "\<not> sublist ''.md'' r"
  shows "\<not> has_link (pre @ ''('' @ g @ r)"
proof
  assume "has_link (pre @ ''('' @ g @ r)"
  then obtain pre' a' g' r' where
    "pre @ ''('' @ g @ r = pre' @ ''('' @ a' @ ''/'' @ g' @ ''.md'' @ r'"
    unfolding has_link_iff by blast
  then have "pre @ (CHR ''('' # g @ r) = pre' @ CHR ''('' # (a' @ CHR ''/'' # g' @ ''.md'' @ r')"
    by simp
  from occurs_after [OF this assms(1)] obtain vs where
    "CHR ''('' # g @ r = vs @ CHR ''('' # (a' @ CHR ''/'' # g' @ ''.md'' @ r')" ..
  then have "\<exists>us. g @ r = us @ CHR ''/'' # (g' @ ''.md'' @ r')"
  proof (cases vs)
    case Nil
    assume "CHR ''('' # g @ r = vs @ CHR ''('' # (a' @ CHR ''/'' # g' @ ''.md'' @ r')"
    with Nil show ?thesis by auto
  next
    case (Cons z vs')
    assume "CHR ''('' # g @ r = vs @ CHR ''('' # (a' @ CHR ''/'' # g' @ ''.md'' @ r')"
    with Cons have "g @ r = (vs' @ CHR ''('' # a') @ CHR ''/'' # (g' @ ''.md'' @ r')" by simp
    then show ?thesis by blast
  qed
  then obtain us where "g @ r = us @ CHR ''/'' # (g' @ ''.md'' @ r')" ..
  from occurs_after [OF this assms(2)] obtain ws where
    "r = ws @ CHR ''/'' # (g' @ ''.md'' @ r')" ..
  then have "r = (ws @ CHR ''/'' # g') @ ''.md'' @ r'" by simp
  then have "sublist ''.md'' r" unfolding sublist_def by blast
  with assms(3) show False ..
qed

lemma sed_s_g_cases:
  obtains (unchanged) "\<not> has_link l" "sed_s_g l = l"
  | (rewritten) pre a g r where "l = pre @ ''('' @ a @ ''/'' @ g @ ''.md'' @ r"
      "CHR ''('' \<notin> set pre" "CHR ''/'' \<notin> set g" "\<not> sublist ''.md'' r"
      "sed_s_g l = pre @ ''('' @ g @ r"
proof (cases "has_link l")
  case False
  then show ?thesis by (intro unchanged sed_s_g_no_link)
next
  case True
  then obtain pre a g r where d: "l = pre @ ''('' @ a @ ''/'' @ g @ ''.md'' @ r"
      "CHR ''('' \<notin> set pre" "CHR ''/'' \<notin> set g" "\<not> sublist ''.md'' r"
    using link_decomp by blast
  have "sed_s_g l = pre @ ''('' @ g @ r" unfolding d(1) using d(2-4) by (rule sed_s_g_closed)
  with d show ?thesis by (rule rewritten)
qed

lemma sed_s_g_no_link_after: "\<not> has_link (sed_s_g l)"
  by (cases l rule: sed_s_g_cases) (simp_all only: no_link_after not_False_eq_True)

lemma sed_s_g_idem: "sed_s_g (sed_s_g l) = sed_s_g l"
  by (rule sed_s_g_no_link) (rule sed_s_g_no_link_after)

lemma set_sed_s_g: "set (sed_s_g l) \<subseteq> set l"
  by (cases l rule: sed_s_g_cases) auto

section \<open>Lines\<close>

lemma lines_of_nonempty: "lines_of s \<noteq> []"
  by (induction s) (auto split: list.splits)

lemma unlines_lines_of: "unlines (lines_of s) = s"
proof (induction s)
  case Nil
  show ?case by simp
next
  case (Cons c cs)
  obtain l ls where ls: "lines_of cs = l # ls"
    using lines_of_nonempty [of cs] by (cases "lines_of cs") auto
  with Cons show ?case by (cases ls) auto
qed

lemma lines_of_no_newline: "l \<in> set (lines_of s) \<Longrightarrow> newline \<notin> set l"
proof (induction s arbitrary: l)
  case Nil
  then show ?case by simp
next
  case (Cons c cs)
  then show ?case by (auto split: if_splits list.splits)
qed

lemma lines_of_single: "newline \<notin> set l \<Longrightarrow> lines_of l = [l]"
  by (induction l) auto

lemma lines_of_append:
  "newline \<notin> set l \<Longrightarrow> lines_of (l @ newline # rest) = l # lines_of rest"
  by (induction l) auto

lemma lines_of_unlines:
  "ls \<noteq> [] \<Longrightarrow> \<forall>l \<in> set ls. newline \<notin> set l \<Longrightarrow> lines_of (unlines ls) = ls"
proof (induction ls rule: unlines.induct)
  case 1
  then show ?case by simp
next
  case (2 l)
  then show ?case by (simp add: lines_of_single)
next
  case (3 l l' ls)
  then show ?case by (simp add: lines_of_append)
qed

lemma sed_s_g_no_newline: "newline \<notin> set l \<Longrightarrow> newline \<notin> set (sed_s_g l)"
  using set_sed_s_g [of l] by auto

lemma lines_of_sed_script: "lines_of (sed_script c) = map sed_s_g (lines_of c)"
  unfolding sed_script_def
proof (rule lines_of_unlines)
  show "map sed_s_g (lines_of c) \<noteq> []" by (simp add: lines_of_nonempty)
  show "\<forall>l \<in> set (map sed_s_g (lines_of c)). newline \<notin> set l"
    using lines_of_no_newline sed_s_g_no_newline by fastforce
qed

lemma sed_script_idem: "sed_script (sed_script c) = sed_script c"
proof -
  have "sed_script (sed_script c) = unlines (map sed_s_g (lines_of (sed_script c)))"
    by (simp only: sed_script_def)
  also have "\<dots> = unlines (map sed_s_g (map sed_s_g (lines_of c)))"
    by (simp only: lines_of_sed_script)
  also have "\<dots> = unlines (map sed_s_g (lines_of c))"
    by (simp add: sed_s_g_idem comp_def)
  finally show ?thesis by (simp only: sed_script_def)
qed

lemma sed_script_no_link:
  "\<forall>l \<in> set (lines_of c). \<not> has_link l \<Longrightarrow> sed_script c = c"
proof -
  assume "\<forall>l \<in> set (lines_of c). \<not> has_link l"
  then have "map sed_s_g (lines_of c) = lines_of c"
    by (intro map_idI) (simp add: sed_s_g_no_link)
  then show ?thesis by (simp add: sed_script_def unlines_lines_of)
qed

section \<open>The region that is replaced\<close>

lemma last_occurrence:
  "u @ c # g = v @ c # w \<Longrightarrow> c \<notin> set g \<Longrightarrow> \<exists>y. u = v @ y"
proof -
  assume eq: "u @ c # g = v @ c # w" and g: "c \<notin> set g"
  from eq consider us where "u = v @ us" | us where "u @ us = v" "c # g = us @ c # w"
    by (auto simp: append_eq_append_conv2)
  then show ?thesis
  proof cases
    case 1
    then show ?thesis by blast
  next
    case 2
    with g have "us = []" by (cases us) auto
    with 2 show ?thesis by simp
  qed
qed

lemma no_paren_no_match:
  assumes "CHR ''('' \<notin> set pre" and "k < length pre"
  shows "pmatch link_pat (drop k (pre @ m)) [] = []"
proof -
  from assms(2) obtain c cs where d: "drop k pre = c # cs"
    by (cases "drop k pre") auto
  then have "c \<in> set pre" by (metis in_set_dropD list.set_intros(1))
  with assms(1) have "c \<noteq> CHR ''(''" by auto
  moreover from assms(2) d have "drop k (pre @ m) = c # (cs @ m)" by simp
  ultimately show ?thesis using pmatch_link_nonempty_iff [of "drop k (pre @ m)"] by auto
qed

lemma region_exists:
  assumes "has_link l"
  shows "\<exists>pre g r. region l pre g r"
proof -
  from link_decomp [OF assms] obtain pre a g r where
    l: "l = pre @ ''('' @ a @ ''/'' @ g @ ''.md'' @ r" and pre: "CHR ''('' \<notin> set pre"
    and g: "CHR ''/'' \<notin> set g" and r: "\<not> sublist ''.md'' r" by blast
  let ?m = "''('' @ a @ ''/'' @ g @ ''.md'' @ r"
  have "([g], r) \<in> set (pmatch link_pat ?m [])" unfolding pmatch_link_set by blast
  then have m: "pmatch link_pat ?m [] \<noteq> []" by auto
  have first: "\<forall>k<length pre. pmatch link_pat (drop k l) [] = []"
    unfolding l using pre by (blast intro: no_paren_no_match)
  have u: "l = (pre @ ''('' @ a) @ ''/'' @ g @ ''.md'' @ r" by (simp add: l)
  have "region l pre g r"
    unfolding region_def using l m first u g r by blast
  then show ?thesis by blast
qed

lemma region_closed:
  assumes "region l pre g r"
  shows "sed_s_g l = pre @ ''('' @ g @ r"
proof -
  from assms obtain m u where lm: "l = pre @ m" and m: "pmatch link_pat m [] \<noteq> []"
    and first: "\<forall>k<length pre. pmatch link_pat (drop k l) [] = []"
    and lu: "l = u @ ''/'' @ g @ ''.md'' @ r" and g: "CHR ''/'' \<notin> set g"
    and r: "\<not> sublist ''.md'' r"
    unfolding region_def by blast
  from m obtain caps r0 where "(caps, r0) \<in> set (pmatch link_pat m [])"
    by (blast dest: nonempty_has_pair)
  then obtain a0 g0 where m0: "m = ''('' @ a0 @ ''/'' @ g0 @ ''.md'' @ r0"
    unfolding pmatch_link_set by blast
  have pre: "CHR ''('' \<notin> set pre"
  proof
    assume "CHR ''('' \<in> set pre"
    then obtain p1 p2 where p: "pre = p1 @ CHR ''('' # p2" by (blast dest: split_list)
    then have "drop (length p1) l = ''('' @ (p2 @ ''('' @ a0) @ ''/'' @ g0 @ ''.md'' @ r0"
      by (simp add: lm m0)
    then have "([g0], r0) \<in> set (pmatch link_pat (drop (length p1) l) [])"
      unfolding pmatch_link_set by blast
    moreover from p have "length p1 < length pre" by simp
    ultimately show False using first by auto
  qed
  from lm m0 lu have eq: "(u @ ''/'' @ g) @ ''.md'' @ r = (pre @ ''('' @ a0 @ ''/'' @ g0) @ ''.md'' @ r0"
    by simp
  from last_md_shortest [OF eq r] have "length r \<le> length r0" .
  moreover have "length ((u @ ''/'' @ g) @ ''.md'' @ r)
                   = length ((pre @ ''('' @ a0 @ ''/'' @ g0) @ ''.md'' @ r0)"
    using eq by (rule arg_cong)
  ultimately have "length (pre @ ''('' @ a0 @ ''/'' @ g0) \<le> length (u @ ''/'' @ g)" by simp
  then have "prefix (pre @ ''('' @ a0 @ ''/'' @ g0) (u @ ''/'' @ g)"
    by (intro prefix_of_append_eq [OF eq])
  then obtain x where "u @ ''/'' @ g = (pre @ ''('' @ a0 @ ''/'' @ g0) @ x"
    by (auto simp: prefix_def)
  then have "u @ CHR ''/'' # g = (pre @ ''('' @ a0) @ CHR ''/'' # (g0 @ x)" by simp
  from last_occurrence [OF this g] obtain y where "u = (pre @ ''('' @ a0) @ y" ..
  with lu have l: "l = pre @ ''('' @ (a0 @ y) @ ''/'' @ g @ ''.md'' @ r" by simp
  show ?thesis by (subst l) (rule sed_s_g_closed [OF pre g r])
qed

section \<open>Lines in a locale with characters of several bytes\<close>

lemma valid_utf8_one:
  "(of_char c :: nat) < 0x80 \<Longrightarrow> valid_utf8 (c # cs) = valid_utf8 cs"
  by (subst valid_utf8.simps) (simp only: if_True)

lemma valid_utf8_two:
  assumes "\<not> (of_char c :: nat) < 0x80"
    and "0xC2 \<le> (of_char c :: nat) \<and> (of_char c :: nat) \<le> 0xDF"
  shows "valid_utf8 (c # cs) =
           (case cs of c1 # cs1 \<Rightarrow> continuation c1 \<and> valid_utf8 cs1 | _ \<Rightarrow> False)"
  by (subst valid_utf8.simps) (simp only: assms if_True if_False simp_thms)

lemma valid_utf8_three:
  assumes "\<not> (of_char c :: nat) < 0x80"
    and "\<not> (0xC2 \<le> (of_char c :: nat) \<and> (of_char c :: nat) \<le> 0xDF)"
    and "0xE0 \<le> (of_char c :: nat) \<and> (of_char c :: nat) \<le> 0xEF"
  shows "valid_utf8 (c # cs) =
           (case cs of
              c1 # c2 # cs2 \<Rightarrow>
                continuation c1 \<and> continuation c2 \<and> second_ok c c1 \<and> valid_utf8 cs2
            | _ \<Rightarrow> False)"
  by (subst valid_utf8.simps) (simp only: assms if_True if_False simp_thms)

lemma valid_utf8_four:
  assumes "\<not> (of_char c :: nat) < 0x80"
    and "\<not> (0xC2 \<le> (of_char c :: nat) \<and> (of_char c :: nat) \<le> 0xDF)"
    and "\<not> (0xE0 \<le> (of_char c :: nat) \<and> (of_char c :: nat) \<le> 0xEF)"
    and "0xF0 \<le> (of_char c :: nat) \<and> (of_char c :: nat) \<le> 0xF4"
  shows "valid_utf8 (c # cs) =
           (case cs of
              c1 # c2 # c3 # cs3 \<Rightarrow>
                continuation c1 \<and> continuation c2 \<and> continuation c3 \<and> second_ok c c1
                \<and> valid_utf8 cs3
            | _ \<Rightarrow> False)"
  by (subst valid_utf8.simps) (simp only: assms if_True if_False simp_thms)

lemma valid_utf8_none:
  assumes "\<not> (of_char c :: nat) < 0x80"
    and "\<not> (0xC2 \<le> (of_char c :: nat) \<and> (of_char c :: nat) \<le> 0xDF)"
    and "\<not> (0xE0 \<le> (of_char c :: nat) \<and> (of_char c :: nat) \<le> 0xEF)"
    and "\<not> (0xF0 \<le> (of_char c :: nat) \<and> (of_char c :: nat) \<le> 0xF4)"
  shows "\<not> valid_utf8 (c # cs)"
  by (subst valid_utf8.simps) (simp only: assms if_True if_False simp_thms)

declare valid_utf8.simps(2) [simp del]

lemma valid_utf8_split:
  "valid_utf8 (x @ c # y) \<Longrightarrow> (of_char c :: nat) < 0x80 \<Longrightarrow> valid_utf8 x \<and> valid_utf8 y"
proof (induction x rule: length_induct)
  case (1 x)
  note IH = 1(1) and v = 1(2) and c = 1(3)
  have ncont: "\<not> continuation c" using c by (simp add: continuation_def)
  have step: "valid_utf8 x'' \<and> valid_utf8 y"
    if "length x'' < length x" "valid_utf8 (x'' @ c # y)" for x''
    using IH that c by blast
  show ?case
  proof (cases x)
    case Nil
    with v c show ?thesis by (simp add: valid_utf8_one)
  next
    case (Cons a x')
    consider (one) "(of_char a :: nat) < 0x80"
      | (two) "\<not> (of_char a :: nat) < 0x80"
          "0xC2 \<le> (of_char a :: nat) \<and> (of_char a :: nat) \<le> 0xDF"
      | (three) "\<not> (of_char a :: nat) < 0x80"
          "\<not> (0xC2 \<le> (of_char a :: nat) \<and> (of_char a :: nat) \<le> 0xDF)"
          "0xE0 \<le> (of_char a :: nat) \<and> (of_char a :: nat) \<le> 0xEF"
      | (four) "\<not> (of_char a :: nat) < 0x80"
          "\<not> (0xC2 \<le> (of_char a :: nat) \<and> (of_char a :: nat) \<le> 0xDF)"
          "\<not> (0xE0 \<le> (of_char a :: nat) \<and> (of_char a :: nat) \<le> 0xEF)"
          "0xF0 \<le> (of_char a :: nat) \<and> (of_char a :: nat) \<le> 0xF4"
      | (none) "\<not> (of_char a :: nat) < 0x80"
          "\<not> (0xC2 \<le> (of_char a :: nat) \<and> (of_char a :: nat) \<le> 0xDF)"
          "\<not> (0xE0 \<le> (of_char a :: nat) \<and> (of_char a :: nat) \<le> 0xEF)"
          "\<not> (0xF0 \<le> (of_char a :: nat) \<and> (of_char a :: nat) \<le> 0xF4)"
      by blast
    then show ?thesis
    proof cases
      case one
      from v have "valid_utf8 (x' @ c # y)"
        unfolding Cons append_Cons valid_utf8_one [OF one] .
      then have "valid_utf8 x' \<and> valid_utf8 y" by (intro step) (simp add: Cons)
      then show ?thesis unfolding Cons valid_utf8_one [OF one] .
    next
      case two
      from v have v': "case x' @ c # y of [] \<Rightarrow> False
          | c1 # cs1 \<Rightarrow> continuation c1 \<and> valid_utf8 cs1"
        unfolding Cons append_Cons valid_utf8_two [OF two] .
      show ?thesis
      proof (cases x')
        case Nil
        with v' ncont show ?thesis by simp
      next
        case (Cons c1 x'')
        with v' have c1: "continuation c1" and "valid_utf8 (x'' @ c # y)" by simp_all
        then have "valid_utf8 x'' \<and> valid_utf8 y"
          by (intro step) (simp_all add: \<open>x = a # x'\<close> Cons)
        with c1 show ?thesis
          unfolding \<open>x = a # x'\<close> Cons valid_utf8_two [OF two] by simp
      qed
    next
      case three
      from v have v': "case x' @ c # y of
            c1 # c2 # cs2 \<Rightarrow>
              continuation c1 \<and> continuation c2 \<and> second_ok a c1 \<and> valid_utf8 cs2
          | _ \<Rightarrow> False"
        unfolding Cons append_Cons valid_utf8_three [OF three] .
      show ?thesis
      proof (cases x')
        case Nil
        with v' ncont show ?thesis by (simp split: list.splits)
      next
        case c1: (Cons c1 x1)
        show ?thesis
        proof (cases x1)
          case Nil
          with v' c1 ncont show ?thesis by simp
        next
          case (Cons c2 x'')
          with v' c1 have k: "continuation c1" "continuation c2" "second_ok a c1"
            and "valid_utf8 (x'' @ c # y)" by simp_all
          then have "valid_utf8 x'' \<and> valid_utf8 y"
            by (intro step) (simp_all add: \<open>x = a # x'\<close> c1 Cons)
          with k show ?thesis
            unfolding \<open>x = a # x'\<close> c1 Cons valid_utf8_three [OF three] by simp
        qed
      qed
    next
      case four
      from v have v': "case x' @ c # y of
            c1 # c2 # c3 # cs3 \<Rightarrow>
              continuation c1 \<and> continuation c2 \<and> continuation c3 \<and> second_ok a c1
              \<and> valid_utf8 cs3
          | _ \<Rightarrow> False"
        unfolding Cons append_Cons valid_utf8_four [OF four] .
      show ?thesis
      proof (cases x')
        case Nil
        with v' ncont show ?thesis by (simp split: list.splits)
      next
        case c1: (Cons c1 x1)
        show ?thesis
        proof (cases x1)
          case Nil
          with v' c1 ncont show ?thesis by (simp split: list.splits)
        next
          case c2: (Cons c2 x2)
          show ?thesis
          proof (cases x2)
            case Nil
            with v' c1 c2 ncont show ?thesis by simp
          next
            case (Cons c3 x'')
            with v' c1 c2 have k: "continuation c1" "continuation c2" "continuation c3"
                "second_ok a c1"
              and "valid_utf8 (x'' @ c # y)" by simp_all
            then have "valid_utf8 x'' \<and> valid_utf8 y"
              by (intro step) (simp_all add: \<open>x = a # x'\<close> c1 c2 Cons)
            with k show ?thesis
              unfolding \<open>x = a # x'\<close> c1 c2 Cons valid_utf8_four [OF four] by simp
          qed
        qed
      qed
    next
      case none
      from v have False
        unfolding Cons append_Cons using valid_utf8_none [OF none] by blast
      then show ?thesis ..
    qed
  qed
qed

declare sed_s_g_in.simps [simp del]

lemma pmatch_in_posix: "pmatch_in (\<lambda>p. True) its s caps = pmatch its s caps"
proof (induction its arbitrary: s caps)
  case Nil
  show ?case by simp
next
  case (Cons i its)
  then show ?case by (cases i) (simp_all split: list.splits)
qed

lemma regexec_in_eq:
  "pmatch_in chars pat s [] = pmatch pat s [] \<Longrightarrow> regexec_in chars pat s = regexec pat s"
  by (simp add: regexec_in_def regexec_def)

lemma valid_utf8_delimited: "valid_utf8 l \<Longrightarrow> delimited valid_utf8 l"
  unfolding delimited_def
proof (intro allI impI)
  fix pre a g r
  assume v: "valid_utf8 l" and l: "l = pre @ ''('' @ a @ ''/'' @ g @ ''.md'' @ r"
  from v l have "valid_utf8 (pre @ CHR ''('' # (a @ CHR ''/'' # (g @ ''.md'' @ r)))" by simp
  then have "valid_utf8 (a @ CHR ''/'' # (g @ ''.md'' @ r))"
    by (rule valid_utf8_split [THEN conjunct2]) simp
  then have a: "valid_utf8 a" and "valid_utf8 (g @ ''.md'' @ r)"
    using valid_utf8_split [of a "CHR ''/''" "g @ ''.md'' @ r"] by simp_all
  then have "valid_utf8 (g @ CHR ''.'' # (''md'' @ r))" by simp
  then have "valid_utf8 g"
    by (rule valid_utf8_split [THEN conjunct1]) simp
  with a show "valid_utf8 a \<and> valid_utf8 g" ..
qed

lemma delimited_suffix: "delimited chars l \<Longrightarrow> suffix s l \<Longrightarrow> delimited chars s"
proof -
  assume d: "delimited chars l" and "suffix s l"
  then obtain x where l: "l = x @ s" by (auto simp: suffix_def)
  show "delimited chars s"
    unfolding delimited_def
  proof (intro allI impI)
    fix pre a g r assume "s = pre @ ''('' @ a @ ''/'' @ g @ ''.md'' @ r"
    with l have "l = (x @ pre) @ ''('' @ a @ ''/'' @ g @ ''.md'' @ r" by simp
    with d show "chars a \<and> chars g" unfolding delimited_def by blast
  qed
qed

lemma pmatch_in_md:
  "pmatch_in chars [Lit CHR ''.'', Lit CHR ''m'', Lit CHR ''d''] s caps
     = pmatch [Lit CHR ''.'', Lit CHR ''m'', Lit CHR ''d''] s caps"
  by (simp split: list.splits)

lemma concat_map_cong:
  "(\<And>x. x \<in> set xs \<Longrightarrow> f x = g x) \<Longrightarrow> concat (map f xs) = concat (map g xs)"
  by (induction xs) simp_all

lemma pmatch_in_group:
  assumes "\<And>g r. q = g @ ''.md'' @ r \<Longrightarrow> chars g"
  shows "pmatch_in chars [Group_AnyStar, Lit CHR ''.'', Lit CHR ''m'', Lit CHR ''d''] q caps
           = pmatch [Group_AnyStar, Lit CHR ''.'', Lit CHR ''m'', Lit CHR ''d''] q caps"
proof -
  let ?T = "[Lit CHR ''.'', Lit CHR ''m'', Lit CHR ''d'']"
  have "(case x of (p, q') \<Rightarrow> if chars p then pmatch_in chars ?T q' (caps @ [p]) else [])
          = (case x of (p, q') \<Rightarrow> pmatch ?T q' (caps @ [p]))"
    if "x \<in> set (splits q)" for x
  proof -
    obtain p q' where x: "x = (p, q')" by (cases x)
    with that have q: "q = p @ q'" by (simp add: set_splits)
    show ?thesis
    proof (cases "chars p")
      case True
      then show ?thesis unfolding x by (simp only: prod.case if_True pmatch_in_md)
    next
      case False
      have "pmatch ?T q' (caps @ [p]) = []"
      proof (rule ccontr)
        assume "pmatch ?T q' (caps @ [p]) \<noteq> []"
        then have "prefix ''.md'' q'" by (simp only: pmatch_md_iff split: if_splits)
        then obtain r where "q' = ''.md'' @ r" by (auto simp: prefix_def)
        with q assms False show False by blast
      qed
      with False show ?thesis unfolding x by (simp only: prod.case if_False)
    qed
  qed
  then show ?thesis
    by (subst pmatch_in.simps(4), subst pmatch.simps(4)) (rule concat_map_cong)
qed

lemma pmatch_in_link:
  assumes "\<And>a g r. s = ''('' @ a @ ''/'' @ g @ ''.md'' @ r \<Longrightarrow> chars a \<and> chars g"
  shows "pmatch_in chars link_pat s [] = pmatch link_pat s []"
proof (cases s)
  case Nil
  then show ?thesis by (simp add: link_pat_def)
next
  case (Cons c s1)
  let ?T4 = "[Group_AnyStar, Lit CHR ''.'', Lit CHR ''m'', Lit CHR ''d'']"
  let ?T5 = "Lit CHR ''/'' # ?T4"
  show ?thesis
  proof (cases "c = CHR ''(''")
    case False
    with Cons show ?thesis by (simp add: link_pat_def)
  next
    case True
    have eq: "(case x of (p, q) \<Rightarrow> if chars p then pmatch_in chars ?T5 q [] else [])
                = (case x of (p, q) \<Rightarrow> pmatch ?T5 q [])"
      if "x \<in> set (splits s1)" for x
    proof -
      obtain p q where x: "x = (p, q)" by (cases x)
      with that have s1: "s1 = p @ q" by (simp add: set_splits)
      have "(if chars p then pmatch_in chars ?T5 q [] else []) = pmatch ?T5 q []"
      proof (cases q)
        case Nil
        then show ?thesis by simp
      next
        case (Cons d q1)
        show ?thesis
        proof (cases "d = CHR ''/''")
          case False
          with Cons show ?thesis by simp
        next
          case d: True
          have dec: "chars p \<and> chars g" if "q1 = g @ ''.md'' @ r" for g r
          proof (rule assms)
            show "s = ''('' @ p @ ''/'' @ g @ ''.md'' @ r"
              using \<open>s = c # s1\<close> True s1 Cons d that by simp
          qed
          have grp: "pmatch_in chars ?T4 q1 [] = pmatch ?T4 q1 []"
            by (rule pmatch_in_group) (use dec in blast)
          show ?thesis
          proof (cases "chars p")
            case True
            with Cons d grp show ?thesis by simp
          next
            case False
            have "pmatch ?T4 q1 [] = []"
            proof (rule ccontr)
              assume "pmatch ?T4 q1 [] \<noteq> []"
              then obtain caps r where "(caps, r) \<in> set (pmatch ?T4 q1 [])"
                by (blast dest: nonempty_has_pair)
              then obtain g where "q1 = g @ ''.md'' @ r"
                unfolding pmatch_iffs by auto
              with dec False show False by blast
            qed
            with False Cons d show ?thesis by simp
          qed
        qed
      qed
      then show ?thesis unfolding x by (simp only: prod.case)
    qed
    have "pmatch_in chars (AnyStar # ?T5) s1 [] = pmatch (AnyStar # ?T5) s1 []"
      by (subst pmatch_in.simps(3), subst pmatch.simps(3)) (rule concat_map_cong, rule eq)
    with Cons True show ?thesis by (simp add: link_pat_def)
  qed
qed

lemma sed_s_g_in_eq:
  "delimited chars l \<Longrightarrow> sed_s_g_in chars l = sed_s_g l"
proof (induction l rule: sed_s_g.induct)
  case (1 s)
  have "pmatch_in chars link_pat s [] = pmatch link_pat s []"
  proof (rule pmatch_in_link)
    fix a g r assume "s = ''('' @ a @ ''/'' @ g @ ''.md'' @ r"
    then have "s = [] @ ''('' @ a @ ''/'' @ g @ ''.md'' @ r" by simp
    with 1(3) show "chars a \<and> chars g" unfolding delimited_def by blast
  qed
  then have rx: "regexec_in chars link_pat s = regexec link_pat s" by (rule regexec_in_eq)
  show ?case
  proof (cases "regexec link_pat s")
    case None
    show ?thesis
    proof (cases s)
      case Nil
      with None rx show ?thesis
        by (subst sed_s_g_in.simps, subst sed_s_g.simps) simp
    next
      case (Cons c cs)
      have "delimited chars cs"
        using 1(3) by (rule delimited_suffix) (simp add: Cons suffix_Cons)
      then have "delimited chars cs" .
      from 1(1) [OF None Cons this] have "sed_s_g_in chars cs = sed_s_g cs" .
      with None rx Cons show ?thesis
        by (subst sed_s_g_in.simps, subst sed_s_g.simps) simp
    qed
  next
    case (Some m)
    obtain caps rest where m: "m = (caps, rest)" by (cases m)
    from Some m have "(caps, rest) \<in> set (pmatch link_pat s [])" by (auto dest: regexec_in)
    then have "suffix rest s" by (rule pmatch_suffix)
    with 1(3) have "delimited chars rest" by (rule delimited_suffix)
    from 1(2) [OF Some m [symmetric] this] have "sed_s_g_in chars rest = sed_s_g rest" .
    with Some m rx show ?thesis
      by (subst sed_s_g_in.simps, subst sed_s_g.simps) simp
  qed
qed

lemma sed_s_g_in_posix: "sed_s_g_in (\<lambda>p. True) l = sed_s_g l"
  by (rule sed_s_g_in_eq) (simp add: delimited_def)

lemma sed_s_g_in_no_link: "\<not> has_link l \<Longrightarrow> sed_s_g_in chars l = l"
proof -
  assume n: "\<not> has_link l"
  then have "delimited chars l" unfolding delimited_def has_link_iff by blast
  then have "sed_s_g_in chars l = sed_s_g l" by (rule sed_s_g_in_eq)
  also from n have "\<dots> = l" by (rule sed_s_g_no_link)
  finally show ?thesis .
qed

lemma set_sed_s_g_in: "set (sed_s_g_in chars l) \<subseteq> set l"
proof (induction chars l rule: sed_s_g_in.induct)
  case (1 chars s)
  show ?case
  proof (cases "regexec_in chars link_pat s")
    case None
    show ?thesis
    proof (cases s)
      case Nil
      with None show ?thesis by (subst sed_s_g_in.simps) simp
    next
      case (Cons c cs)
      with None 1(1) [OF None Cons] show ?thesis
        by (subst sed_s_g_in.simps) auto
    qed
  next
    case (Some m)
    obtain caps rest where m: "m = (caps, rest)" by (cases m)
    from Some m have "(caps, rest) \<in> set (pmatch_in chars link_pat s [])"
      by (auto dest: regexec_in_in)
    then have "(caps, rest) \<in> set (pmatch link_pat s [])" using pmatch_in_subset by blast
    then obtain a g where s: "s = ''('' @ a @ ''/'' @ g @ ''.md'' @ rest" and c: "caps = [g]"
      unfolding pmatch_link_set by blast
    from 1(2) [OF Some m [symmetric]] have "set (sed_s_g_in chars rest) \<subseteq> set rest" .
    then have "set (''('' @ g @ sed_s_g_in chars rest) \<subseteq> set s"
      unfolding s by auto
    moreover have "sed_s_g_in chars s = ''('' @ g @ sed_s_g_in chars rest"
      by (subst sed_s_g_in.simps) (simp add: Some m c link_rep_def)
    ultimately show ?thesis by simp
  qed
qed

lemma lines_of_sed_script_in:
  "lines_of (sed_script_in chars c) = map (sed_s_g_in chars) (lines_of c)"
  unfolding sed_script_in_def
proof (rule lines_of_unlines)
  show "map (sed_s_g_in chars) (lines_of c) \<noteq> []" by (simp add: lines_of_nonempty)
  show "\<forall>l \<in> set (map (sed_s_g_in chars) (lines_of c)). newline \<notin> set l"
    using lines_of_no_newline set_sed_s_g_in by fastforce
qed

section \<open>The traversal, file by file\<close>

lemma md_path_iff_name:
  "suffix ''.md'' (dir @ ''/'' @ name) \<longleftrightarrow> suffix ''.md'' name"
proof
  assume "suffix ''.md'' name"
  then show "suffix ''.md'' (dir @ ''/'' @ name)"
    by (metis suffix_appendI)
next
  assume "suffix ''.md'' (dir @ ''/'' @ name)"
  then have "prefix ''dm.'' (rev name @ ''/'' @ rev dir)"
    by (simp add: suffix_to_prefix)
  then have "prefix ''dm.'' (rev name)"
    by (cases "rev name"; cases "tl (rev name)"; cases "tl (tl (rev name))") auto
  then show "suffix ''.md'' name" by (simp add: suffix_to_prefix)
qed

lemma files_not_visible:
  "\<not> vis \<Longrightarrow> \<forall>f \<in> set (files_of vis path e). \<not> l_visible f"
  "\<not> vis \<Longrightarrow> \<forall>f \<in> set (files_in vis dir es). \<not> l_visible f"
  by (induction vis path e and vis dir es rule: files_of_files_in.induct) auto

lemma unreachable:
  "map rewritten (files_of False path e) = files_of False path e"
  "map rewritten (files_in False dir es) = files_in False dir es"
  "filter target (files_of False path e) = []"
  "filter target (files_in False dir es) = []"
proof -
  show "map rewritten (files_of False path e) = files_of False path e"
    by (rule map_idI)
      (use files_not_visible(1) [of False] in \<open>auto simp: rewritten_def target_def\<close>)
  show "map rewritten (files_in False dir es) = files_in False dir es"
    by (rule map_idI)
      (use files_not_visible(2) [of False] in \<open>auto simp: rewritten_def target_def\<close>)
  show "filter target (files_of False path e) = []"
    using files_not_visible(1) [of False] by (auto simp: filter_empty_conv target_def)
  show "filter target (files_in False dir es) = []"
    using files_not_visible(2) [of False] by (auto simp: filter_empty_conv target_def)
qed

lemma files_collect:
  "files_of True path (fst (loop_body path e s)) = map rewritten (files_of True path e)"
  "files_in True dir (fst (collect_files dir es s)) = map rewritten (files_in True dir es)"
proof (induction path e s and dir es s rule: loop_body_collect_files.induct)
  case (1 path es s)
  then show ?case by (simp add: case_prod_unfold Let_def)
next
  case (2 path p content s)
  then show ?case
    by (cases p) (simp_all add: rewritten_def target_def sed_cmd_def echo_def case_prod_unfold Let_def)
next
  case (3 path s)
  then show ?case by simp
next
  case (4 path es s)
  then show ?case by (simp add: unreachable)
next
  case (5 dir s)
  then show ?case by simp
next
  case (6 dir name e es s)
  show ?case
  proof (cases "hidden name")
    case True
    with 6(1) show ?thesis
      by (simp add: case_prod_unfold Let_def unreachable)
  next
    case False
    obtain e' s1 where lb: "loop_body (dir @ ''/'' @ name) e s = (e', s1)"
      by (cases "loop_body (dir @ ''/'' @ name) e s")
    from 6(2) [OF False] lb
    have "files_of True (dir @ ''/'' @ name) e' = map rewritten (files_of True (dir @ ''/'' @ name) e)"
      by simp
    moreover from 6(3) [OF False refl lb [symmetric]]
    have "files_in True dir (fst (collect_files dir es s1)) = map rewritten (files_in True dir es)" .
    ultimately show ?thesis using False lb
      by (simp add: case_prod_unfold Let_def)
  qed
qed

lemma out_collect:
  "out (snd (loop_body path e s)) = out s @ map progress (filter target (files_of True path e))"
  "out (snd (collect_files dir es s)) = out s @ map progress (filter target (files_in True dir es))"
proof (induction path e s and dir es s rule: loop_body_collect_files.induct)
  case (1 path es s)
  then show ?case by (simp add: case_prod_unfold Let_def)
next
  case (2 path p content s)
  then show ?case
    by (cases p)
      (simp_all add: progress_def target_def sed_cmd_def echo_def case_prod_unfold Let_def)
next
  case (3 path s)
  then show ?case by simp
next
  case (4 path es s)
  then show ?case by (simp add: unreachable)
next
  case (5 dir s)
  then show ?case by simp
next
  case (6 dir name e es s)
  show ?case
  proof (cases "hidden name")
    case True
    have "filter target (files_of False (dir @ ''/'' @ name) e) = []"
      by (rule unreachable)
    with True 6(1) show ?thesis
      by (simp add: case_prod_unfold Let_def)
  next
    case False
    obtain e' s1 where lb: "loop_body (dir @ ''/'' @ name) e s = (e', s1)"
      by (cases "loop_body (dir @ ''/'' @ name) e s")
    from 6(2) [OF False] lb
    have "out s1 = out s @ map progress (filter target (files_of True (dir @ ''/'' @ name) e))"
      by simp
    moreover from 6(3) [OF False refl lb [symmetric]]
    have "out (snd (collect_files dir es s1))
            = out s1 @ map progress (filter target (files_in True dir es))" .
    ultimately show ?thesis using False lb
      by (simp add: case_prod_unfold Let_def)
  qed
qed

lemma err_collect:
  "err (snd (loop_body path e s))
     = err s @ concat (map complaint (filter target (files_of True path e)))"
  "err (snd (collect_files dir es s))
     = err s @ concat (map complaint (filter target (files_in True dir es)))"
proof (induction path e s and dir es s rule: loop_body_collect_files.induct)
  case (1 path es s)
  then show ?case by (simp add: case_prod_unfold Let_def)
next
  case (2 path p content s)
  then show ?case
    by (cases p)
      (simp_all add: complaint_def target_def sed_cmd_def echo_def case_prod_unfold Let_def)
next
  case (3 path s)
  then show ?case by simp
next
  case (4 path es s)
  then show ?case by (simp add: unreachable)
next
  case (5 dir s)
  then show ?case by simp
next
  case (6 dir name e es s)
  show ?case
  proof (cases "hidden name")
    case True
    have "filter target (files_of False (dir @ ''/'' @ name) e) = []"
      by (rule unreachable)
    with True 6(1) show ?thesis
      by (simp add: case_prod_unfold Let_def)
  next
    case False
    obtain e' s1 where lb: "loop_body (dir @ ''/'' @ name) e s = (e', s1)"
      by (cases "loop_body (dir @ ''/'' @ name) e s")
    from 6(2) [OF False] lb
    have "err s1 = err s @ concat (map complaint (filter target (files_of True (dir @ ''/'' @ name) e)))"
      by simp
    moreover from 6(3) [OF False refl lb [symmetric]]
    have "err (snd (collect_files dir es s1))
            = err s1 @ concat (map complaint (filter target (files_in True dir es)))" .
    ultimately show ?thesis using False lb
      by (simp add: case_prod_unfold Let_def)
  qed
qed

lemma collect_idem:
  "fst (loop_body path (fst (loop_body path e s)) s') = fst (loop_body path e s)"
  "fst (collect_files dir (fst (collect_files dir es s)) s') = fst (collect_files dir es s)"
proof (induction path e s and dir es s arbitrary: s' and s' rule: loop_body_collect_files.induct)
  case (1 path es s)
  then show ?case by (simp add: case_prod_unfold Let_def)
next
  case (2 path p content s)
  then show ?case
    by (cases p) (simp_all add: sed_cmd_def echo_def case_prod_unfold Let_def sed_script_idem)
next
  case (3 path s)
  then show ?case by simp
next
  case (4 path es s)
  then show ?case by (simp add: unreachable)
next
  case (5 dir s)
  then show ?case by simp
next
  case (6 dir name e es s)
  show ?case
  proof (cases "hidden name")
    case True
    with 6(1) [of s'] show ?thesis by (simp add: case_prod_unfold Let_def)
  next
    case False
    let ?p = "dir @ ''/'' @ name"
    let ?s1 = "snd (loop_body ?p e s)"
    have a: "fst (loop_body ?p (fst (loop_body ?p e s)) s') = fst (loop_body ?p e s)"
      by (rule 6(2) [OF False])
    have b: "fst (collect_files dir (fst (collect_files dir es ?s1)) t)
               = fst (collect_files dir es ?s1)" for t
      by (rule 6(3) [OF False refl]) (rule prod.collapse)
    from False a b show ?thesis
      by (simp add: case_prod_unfold Let_def)
  qed
qed

lemma collect_files_append:
  "collect_files dir (es1 @ es2) s =
     (let (r1, s1) = collect_files dir es1 s; (r2, s2) = collect_files dir es2 s1
      in (r1 @ r2, s2))"
  by (induction es1 arbitrary: s) (auto simp: case_prod_unfold Let_def)

lemma main_Dir:
  "main (Some (Dir es)) =
     (Some (Dir (fst (collect_files ''docs/wiki'' es io0))),
      snd (collect_files ''docs/wiki'' es io0)
        \<lparr>out := out (snd (collect_files ''docs/wiki'' es io0)) @ [''Links transformed successfully!'']\<rparr>,
      0)"
  by (simp add: main_def echo_def case_prod_unfold Let_def)

lemma main_other:
  "(\<forall>es. wiki \<noteq> Some (Dir es)) \<Longrightarrow>
     main wiki = (wiki, io0\<lparr>out := out io0 @ [''Links transformed successfully!'']\<rparr>, 0)"
  by (auto simp: main_def echo_def split: option.splits entry.splits)

lemma target_rewritten: "target (rewritten f) = target f"
  by (simp add: rewritten_def target_def)

lemma progress_rewritten: "progress (rewritten f) = progress f"
  by (simp add: rewritten_def progress_def)

lemma complaint_rewritten: "complaint (rewritten f) = complaint f"
  by (simp add: rewritten_def complaint_def)

lemma streams_second_run:
  "snd (collect_files dir (fst (collect_files dir es s)) s') = snd (collect_files dir es s')"
proof -
  let ?es' = "fst (collect_files dir es s)"
  have f: "files_in True dir ?es' = map rewritten (files_in True dir es)"
    by (rule files_collect)
  have "filter target (map rewritten fs) = map rewritten (filter target fs)" for fs
    by (induction fs) (simp_all add: target_rewritten)
  then have "out (snd (collect_files dir ?es' s')) = out (snd (collect_files dir es s'))"
    and "err (snd (collect_files dir ?es' s')) = err (snd (collect_files dir es s'))"
    by (simp_all add: out_collect err_collect f comp_def progress_rewritten complaint_rewritten)
  then show ?thesis by simp
qed

section \<open>Sample lines\<close>

text \<open>
  Lines with more than one parenthesis, slash or \<open>.md\<close>, and what the substitution makes
  of them (GNU sed 4.9 prints the same, in the locales \<open>C\<close> and \<open>C.utf8\<close>): the match starts at the first parenthesis that
  has a slash and \<open>.md\<close> after it and ends at the last \<open>.md\<close> of the line.
\<close>

lemma sample_lines:
  "sed_s_g ''f(x) [a](x/y.md) and [b](z/w.md) and c.md'' = ''f(w.md) and c''"
  "sed_s_g ''(a/b/c.md.md) x'' = ''(c.md) x''"
  "sed_s_g ''((a/b.md/c.md'' = ''(c''"
  "sed_s_g ''(a/x.m.mdd'' = ''(x.md''"
  "sed_s_g ''(/.md'' = ''(''"
  "sed_s_g ''no link here (x.md)'' = ''no link here (x.md)''"
  "sed_script (''a(b/c.md'' @ [newline] @ ''last(x/y.md'') = ''a(c'' @ [newline] @ ''last(y''"
  by code_simp+

text \<open>
  A directory that cannot be listed is not entered, and nothing is printed for it.
\<close>

lemma locked_directory_not_entered:
  "main (Some (Dir [(''private'', Locked [(''Plan.md'', File Read_write ''[a](x/y.md)'')])]))
     = (Some (Dir [(''private'', Locked [(''Plan.md'', File Read_write ''[a](x/y.md)'')])]),
        \<lparr>out = [''Links transformed successfully!''], err = []\<rparr>, 0)"
  by code_simp

text \<open>
  A file that sed can read but whose edited copy it cannot write: the diagnostic names
  the temporary file, the status of sed is 4, and the script goes on.
\<close>

lemma unwritable_file_diagnostic:
  "main (Some (Dir [(''A.md'', File Unwritable ''[a](x/y.md)'')]))
     = (Some (Dir [(''A.md'', File Unwritable ''[a](x/y.md)'')]),
        \<lparr>out = [''Transforming links in docs/wiki/A.md'', ''Links transformed successfully!''],
         err = [''sed: couldn't open temporary file docs/wiki/sedXXXXXX: Permission denied'']\<rparr>,
        0)"
  "snd (snd (sed_cmd ''docs/wiki/A.md'' Unwritable ''[a](x/y.md)'' io0)) = 4"
  by code_simp+

text \<open>
  The byte \<open>0xE9\<close> is a character in the POSIX locale and none in a UTF-8 locale, where
  it would have to start a character of three bytes (GNU sed 4.9 prints the same in the
  locales \<open>C\<close> and \<open>C.utf8\<close>).
\<close>

lemma locale_samples:
  "sed_s_g_in valid_utf8 (''(x/caf'' @ [CHR 0xE9] @ ''.md)'') = ''(x/caf'' @ [CHR 0xE9] @ ''.md)''"
  "sed_s_g (''(x/caf'' @ [CHR 0xE9] @ ''.md)'') = ''(caf'' @ [CHR 0xE9] @ '')''"
  "sed_s_g (''(a/b.md'' @ [CHR 0xFF] @ ''(c/d.md'') = ''(d''"
  by code_simp+

section \<open>The claims\<close>

subsection \<open>C1: the scenario of the specification\<close>

text \<open>
  C1 (as amended). On the line \<open>See [Guide](../other/Getting-Started.md) for details.\<close>
  the match runs from the parenthesis to \<open>.md\<close> and stops there, so the closing
  parenthesis after \<open>.md\<close> is kept: the line becomes
  \<open>See [Guide](Getting-Started) for details.\<close>, both for the substitution alone and for
  a run of the script on a tree that holds the line in a markdown file.
\<close>

theorem scenario_keeps_closing_paren:
  "sed_s_g ''See [Guide](../other/Getting-Started.md) for details.''
     = ''See [Guide](Getting-Started) for details.''
   \<and> fst (main (Some (Dir [(''Home.md'',
          File Read_write ''See [Guide](../other/Getting-Started.md) for details.'')])))
     = Some (Dir [(''Home.md'', File Read_write ''See [Guide](Getting-Started) for details.'')])"
  by code_simp

text \<open>
  C1 (as stated) fails: the output is not the line with the parenthesis dropped.
\<close>

theorem scenario_paren_not_dropped:
  "sed_s_g ''See [Guide](../other/Getting-Started.md) for details.''
     \<noteq> ''See [Guide](Getting-Started for details.''"
  by code_simp

subsection \<open>C2: a link is rewritten to its last segment\<close>

text \<open>
  C2 says that an occurrence \<open>(path/name.md\<close> becomes \<open>(name\<close> and that nothing else
  of the line changes. The code does not do this where another parenthesis stands
  before the link: the first \<open>.*\<close> of the pattern runs over it, the match starts at the
  first parenthesis of the line, and the text between that parenthesis and the link is
  lost. The line \<open>(see [Guide](docs/Guide.md))\<close> becomes \<open>(Guide))\<close>, not
  \<open>(see [Guide](Guide))\<close>. It is the defect of C4: a \<open>.*\<close> that takes more than the path
  of one link.
\<close>

theorem earlier_paren_swallows_text:
  "sed_s_g ''(see [Guide](docs/Guide.md))'' = ''(Guide))''"
  by code_simp

subsection \<open>C3: idempotence\<close>

text \<open>
  C3. Rewriting twice is rewriting once: for a line, for the content of a file, and for a
  run of the script on the tree a first run has left (same tree, same streams, same
  status).
\<close>

theorem rewriter_idempotent:
  "sed_s_g (sed_s_g l) = sed_s_g l
   \<and> sed_script (sed_script c) = sed_script c
   \<and> main (fst (main wiki)) = main wiki"
proof -
  have "main (fst (main wiki)) = main wiki"
  proof (cases "\<exists>es. wiki = Some (Dir es)")
    case True
    then obtain es where w: "wiki = Some (Dir es)" ..
    show ?thesis
      unfolding w main_Dir fst_conv
      by (simp only: collect_idem streams_second_run)
  next
    case False
    then show ?thesis by (simp add: main_other)
  qed
  then show ?thesis by (simp add: sed_s_g_idem sed_script_idem)
qed

subsection \<open>C4: several links on one line\<close>

text \<open>
  C4 says that each of several links on a line is replaced by its own last segment. The
  code does not do this: on a line with two links the one match spans both, and the line
  \<open>[a](x/y.md) and [b](z/w.md)\<close> becomes \<open>[a](w)\<close>, not \<open>[a](y) and [b](w)\<close>. The flag \<open>g\<close>
  of the command never finds a second match.
\<close>

theorem two_links_on_a_line:
  "sed_s_g ''[a](x/y.md) and [b](z/w.md)'' = ''[a](w)''"
  by code_simp

subsection \<open>C5: which files the traversal visits\<close>



subsection \<open>C6: files that are not markdown\<close>

text \<open>
  C6. A regular file whose name does not end in \<open>.md\<close> is left as it is, and nothing is
  printed for it, whatever its content; over the whole tree, the files whose path does
  not end in \<open>.md\<close> are the same before and after the traversal, content included.
\<close>

theorem other_files_untouched:
  "(\<not> suffix ''.md'' name \<longrightarrow>
      loop_body (dir @ ''/'' @ name) (File p content) s = (File p content, s))
   \<and> filter (\<lambda>f. \<not> suffix ''.md'' (l_path f)) (files_in True dir (fst (collect_files dir es s)))
       = filter (\<lambda>f. \<not> suffix ''.md'' (l_path f)) (files_in True dir es)"
proof (intro conjI impI)
  assume "\<not> suffix ''.md'' name"
  then have "\<not> suffix ''.md'' (dir @ ''/'' @ name)" unfolding md_path_iff_name .
  then show "loop_body (dir @ ''/'' @ name) (File p content) s = (File p content, s)"
    by simp
next
  have "filter (\<lambda>f. \<not> suffix ''.md'' (l_path f)) (map rewritten fs)
          = filter (\<lambda>f. \<not> suffix ''.md'' (l_path f)) fs" for fs
    by (induction fs) (auto simp: rewritten_def target_def)
  then show "filter (\<lambda>f. \<not> suffix ''.md'' (l_path f))
               (files_in True dir (fst (collect_files dir es s)))
             = filter (\<lambda>f. \<not> suffix ''.md'' (l_path f)) (files_in True dir es)"
    by (simp only: files_collect)
qed

theorem other_files_untouched_witness:
  "loop_body (''docs/wiki'' @ ''/'' @ ''links.txt'') (File Read_write ''[a](x/y.md)'') io0
     = (File Read_write ''[a](x/y.md)'', io0)"
proof -
  have "\<not> suffix ''.md'' ''links.txt''" by code_simp
  with other_files_untouched [of "''links.txt''" "''docs/wiki''" Read_write "''[a](x/y.md)''" io0]
  show ?thesis by blast
qed

subsection \<open>C7: failures and the exit status\<close>

text \<open>
  C7 (as amended). The script exits with status zero whatever happened. When sed cannot
  read or replace a file it leaves the file as it was and ends with a status that is not
  zero, which the script does not look at; the error stream holds the diagnostic of sed
  for each reachable markdown file that sed could not edit, in the order of the
  traversal, so the traversal goes on after a failure.
\<close>

theorem exit_status_always_zero:
  "snd (snd (main wiki)) = 0
   \<and> err (snd (collect_files dir es s))
       = err s @ concat (map complaint (filter target (files_in True dir es)))
   \<and> (p \<noteq> Read_write \<longrightarrow>
        fst (sed_cmd path p content s) = content \<and> snd (snd (sed_cmd path p content s)) \<noteq> 0)"
proof (intro conjI impI)
  show "snd (snd (main wiki)) = 0"
    by (cases "\<exists>es. wiki = Some (Dir es)") (auto simp: main_Dir main_other)
  show "err (snd (collect_files dir es s))
          = err s @ concat (map complaint (filter target (files_in True dir es)))"
    by (rule err_collect)
  assume "p \<noteq> Read_write"
  then show "fst (sed_cmd path p content s) = content" 
    and "snd (snd (sed_cmd path p content s)) \<noteq> 0"
    by (cases p; simp add: sed_cmd_def)+
qed

theorem exit_status_always_zero_witness:
  "fst (sed_cmd ''docs/wiki/Home.md'' Unreadable ''[a](x/y.md)'' io0) = ''[a](x/y.md)''
   \<and> snd (snd (sed_cmd ''docs/wiki/Home.md'' Unreadable ''[a](x/y.md)'' io0)) \<noteq> 0"
  using exit_status_always_zero [of None "[]" "[]" io0 Unreadable "''docs/wiki/Home.md''"
      "''[a](x/y.md)''"]
  by simp

text \<open>
  C7 (as stated) fails: with an unreadable \<open>A.md\<close> the run prints the diagnostic, goes on
  to rewrite \<open>B.md\<close>, prints the closing message and exits with status zero.
\<close>

theorem unreadable_file_exit_zero:
  "main (Some (Dir [(''A.md'', File Unreadable ''[a](x/y.md)''),
                    (''B.md'', File Read_write ''[a](x/y.md)'')]))
     = (Some (Dir [(''A.md'', File Unreadable ''[a](x/y.md)''),
                   (''B.md'', File Read_write ''[a](y)'')]),
        \<lparr>out = [''Transforming links in docs/wiki/A.md'',
                 ''Transforming links in docs/wiki/B.md'',
                 ''Links transformed successfully!''],
         err = [''sed: can't read docs/wiki/A.md: Permission denied'']\<rparr>,
        0)"
  by code_simp

subsection \<open>C8: lines without a link\<close>

text \<open>
  C8. A line that holds no text of the shape \<open>(<path>/<name>.md\<close> is left unchanged; a
  file none of whose lines holds one is rewritten to itself, and the edit of such a file
  (one that sed can read and replace) is not an error.
\<close>

theorem no_link_unchanged:
  "(\<not> (\<exists>pre path name post. l = pre @ ''('' @ path @ ''/'' @ name @ ''.md'' @ post)
      \<longrightarrow> sed_s_g l = l)
   \<and> ((\<forall>l \<in> set (lines_of c).
          \<not> (\<exists>pre path name post. l = pre @ ''('' @ path @ ''/'' @ name @ ''.md'' @ post))
      \<longrightarrow> sed_script c = c \<and> sed_i file Read_write c = Inr c)"
  using sed_s_g_no_link [of l] sed_script_no_link [of c]
  unfolding has_link_iff by simp

theorem no_link_unchanged_witness:
  "sed_s_g ''broken [link](Getting-Started.md and (a/b.txt)'' 
     = ''broken [link](Getting-Started.md and (a/b.txt)''
   \<and> sed_script (''intro (x.md)'' @ [newline] @ ''see docs/a.md'')
     = ''intro (x.md)'' @ [newline] @ ''see docs/a.md''
   \<and> sed_i ''docs/wiki/Home.md'' Read_write (''intro (x.md)'' @ [newline] @ ''see docs/a.md'')
     = Inr (''intro (x.md)'' @ [newline] @ ''see docs/a.md'')"
proof -
  let ?l = "''broken [link](Getting-Started.md and (a/b.txt)''"
  let ?c = "''intro (x.md)'' @ [newline] @ ''see docs/a.md''"
  have "\<not> has_link ?l" by code_simp
  then have h1: "\<not> (\<exists>pre path name post. ?l = pre @ ''('' @ path @ ''/'' @ name @ ''.md'' @ post)"
    unfolding has_link_iff .
  have "lines_of ?c = [''intro (x.md)'', ''see docs/a.md'']" by code_simp
  moreover have "\<not> has_link ''intro (x.md)''" "\<not> has_link ''see docs/a.md''" by code_simp+
  ultimately have "\<forall>l \<in> set (lines_of ?c). \<not> has_link l" by simp
  then have h2: "\<forall>l \<in> set (lines_of ?c).
      \<not> (\<exists>pre path name post. l = pre @ ''('' @ path @ ''/'' @ name @ ''.md'' @ post)"
    unfolding has_link_iff .
  from h1 h2 no_link_unchanged [of ?l ?c "''docs/wiki/Home.md''"]
  show ?thesis by blast
qed

subsection \<open>C9: one region is replaced\<close>

text \<open>
  C9 (as amended). A line that holds a link has a region in the sense of \<open>region\<close>. When
  the texts between the delimiters of the line are sequences of characters of the locale
  in which sed runs (\<open>delimited\<close>: every line in the POSIX locale, every line of
  well-formed UTF-8 in a UTF-8 locale), exactly one region is replaced: the output line
  is the text before the first match, then \<open>(\<close>, then the text between the last slash
  before the last \<open>.md\<close> and that \<open>.md\<close>, then the text after the last \<open>.md\<close>. In every
  locale the lines of the rewritten file are the rewritten lines of the file, so their
  number is the same.
\<close>

theorem one_region_replaced:
  "(has_link l \<longrightarrow> (\<exists>pre g r. region l pre g r))
   \<and> (region l pre g r \<longrightarrow> sed_s_g l = pre @ ''('' @ g @ r)
   \<and> (region l pre g r \<and> delimited chars l \<longrightarrow> sed_s_g_in chars l = pre @ ''('' @ g @ r)
   \<and> (region l pre g r \<and> valid_utf8 l \<longrightarrow> sed_s_g_in valid_utf8 l = pre @ ''('' @ g @ r)
   \<and> lines_of (sed_script c) = map sed_s_g (lines_of c)
   \<and> length (lines_of (sed_script c)) = length (lines_of c)
   \<and> lines_of (sed_script_in chars c) = map (sed_s_g_in chars) (lines_of c)
   \<and> length (lines_of (sed_script_in chars c)) = length (lines_of c)"
proof (intro conjI impI)
  show "\<exists>pre g r. region l pre g r" if "has_link l"
    using that by (rule region_exists)
  show "sed_s_g l = pre @ ''('' @ g @ r" if "region l pre g r"
    using that by (rule region_closed)
  show "sed_s_g_in chars l = pre @ ''('' @ g @ r" if "region l pre g r \<and> delimited chars l"
  proof -
    from that have "sed_s_g_in chars l = sed_s_g l" by (intro sed_s_g_in_eq) simp
    also from that have "\<dots> = pre @ ''('' @ g @ r" by (intro region_closed) simp
    finally show ?thesis .
  qed
  show "sed_s_g_in valid_utf8 l = pre @ ''('' @ g @ r" if "region l pre g r \<and> valid_utf8 l"
  proof -
    from that have "sed_s_g_in valid_utf8 l = sed_s_g l"
      by (intro sed_s_g_in_eq valid_utf8_delimited) simp
    also from that have "\<dots> = pre @ ''('' @ g @ r" by (intro region_closed) simp
    finally show ?thesis .
  qed
  show "lines_of (sed_script c) = map sed_s_g (lines_of c)"
    by (rule lines_of_sed_script)
  then show "length (lines_of (sed_script c)) = length (lines_of c)" by simp
  show "lines_of (sed_script_in chars c) = map (sed_s_g_in chars) (lines_of c)"
    by (rule lines_of_sed_script_in)
  then show "length (lines_of (sed_script_in chars c)) = length (lines_of c)" by simp
qed

theorem one_region_replaced_witness:
  "has_link ''f(x) [a](x/y.md) and [b](z/w.md) and c.md''
   \<and> region ''f(x) [a](x/y.md) and [b](z/w.md) and c.md'' ''f'' ''w.md) and c'' ''''
   \<and> sed_s_g ''f(x) [a](x/y.md) and [b](z/w.md) and c.md'' = ''f(w.md) and c''
   \<and> valid_utf8 (''see (docs/caf'' @ [CHR 0xC3, CHR 0xA9] @ ''.md) x'')
   \<and> region (''see (docs/caf'' @ [CHR 0xC3, CHR 0xA9] @ ''.md) x'')
        ''see '' (''caf'' @ [CHR 0xC3, CHR 0xA9]) '') x''
   \<and> sed_s_g_in valid_utf8 (''see (docs/caf'' @ [CHR 0xC3, CHR 0xA9] @ ''.md) x'')
       = ''see '' @ ''('' @ (''caf'' @ [CHR 0xC3, CHR 0xA9]) @ '') x''"
proof -
  let ?l = "''f(x) [a](x/y.md) and [b](z/w.md) and c.md''"
  have h: "has_link ?l" by code_simp
  have l: "?l = ''f'' @ ''(x) [a](x/y.md) and [b](z/w.md) and c.md''" by simp
  have m: "pmatch link_pat ''(x) [a](x/y.md) and [b](z/w.md) and c.md'' [] \<noteq> []"
    by code_simp
  have first: "\<forall>k<length ''f''. pmatch link_pat (drop k ?l) [] = []"
    unfolding l by (intro allI impI no_paren_no_match) simp_all
  have r1: "region ?l ''f'' ''w.md) and c'' ''''"
    unfolding region_def
    by (rule exI [of _ "''(x) [a](x/y.md) and [b](z/w.md) and c.md''"],
        rule exI [of _ "''f(x) [a](x/y.md) and [b](z''"])
       (use m first in \<open>simp\<close>)
  let ?e = "[CHR 0xC3, CHR 0xA9]"
  let ?k = "''see (docs/caf'' @ ?e @ ''.md) x''"
  have v: "valid_utf8 ?k" by code_simp
  have k: "?k = ''see '' @ (''(docs/caf'' @ ?e @ ''.md) x'')" by simp
  have m2: "pmatch link_pat (''(docs/caf'' @ ?e @ ''.md) x'') [] \<noteq> []"
    by code_simp
  have first2: "\<forall>j<length ''see ''. pmatch link_pat (drop j ?k) [] = []"
    unfolding k by (intro allI impI no_paren_no_match) simp_all
  have md: "\<not> sublist ''.md'' '') x''" by code_simp
  have r2: "region ?k ''see '' (''caf'' @ ?e) '') x''"
    unfolding region_def
    by (rule exI [of _ "''(docs/caf'' @ ?e @ ''.md) x''"], rule exI [of _ "''see (docs''"])
       (use m2 first2 md in \<open>simp\<close>)
  from h r1 one_region_replaced [of ?l "''f''" "''w.md) and c''" "''''" "\<lambda>p. True" "[]"]
  have a: "sed_s_g ?l = ''f(w.md) and c''" by simp
  from v r2 one_region_replaced [of ?k "''see ''" "''caf'' @ ?e" "'') x''" valid_utf8 "[]"]
  have b: "sed_s_g_in valid_utf8 ?k = ''see '' @ ''('' @ (''caf'' @ ?e) @ '') x''" by blast
  from h r1 a v r2 b show ?thesis by (intro conjI)
qed

text \<open>
  C9 (as stated) fails in a UTF-8 locale on a line with a byte that belongs to no
  character: \<open>.*\<close> cannot run over the byte \<open>0xFF\<close>, so in \<open>(a/b.md\<close>, \<open>0xFF\<close>, \<open>(c/d.md\<close> the
  match ends at the first \<open>.md\<close>, the flag \<open>g\<close> finds a second match after the byte, and
  two regions are replaced; the formula of the claim gives \<open>(d\<close>.
\<close>

theorem invalid_byte_splits_the_match:
  "has_link (''(a/b.md'' @ [CHR 0xFF] @ ''(c/d.md'')
   \<and> region (''(a/b.md'' @ [CHR 0xFF] @ ''(c/d.md'') [] ''d'' []
   \<and> sed_s_g_in valid_utf8 (''(a/b.md'' @ [CHR 0xFF] @ ''(c/d.md'')
       = ''(b'' @ [CHR 0xFF] @ ''(d''
   \<and> sed_s_g_in valid_utf8 (''(a/b.md'' @ [CHR 0xFF] @ ''(c/d.md'') \<noteq> [] @ ''('' @ ''d'' @ []"
proof -
  let ?l = "''(a/b.md'' @ [CHR 0xFF] @ ''(c/d.md''"
  have h: "has_link ?l" by code_simp
  have m: "pmatch link_pat ?l [] \<noteq> []" by code_simp
  have r: "region ?l [] ''d'' []"
    unfolding region_def
    by (rule exI [of _ ?l], rule exI [of _ "''(a/b.md'' @ [CHR 0xFF] @ ''(c''"])
       (use m in \<open>simp\<close>)
  have e: "sed_s_g_in valid_utf8 ?l = ''(b'' @ [CHR 0xFF] @ ''(d''" by code_simp
  then have n: "sed_s_g_in valid_utf8 ?l \<noteq> [] @ ''('' @ ''d'' @ []" by simp
  from h r e n show ?thesis by (intro conjI)
qed

subsection \<open>C10: hidden entries\<close>

text \<open>
  C10. An entry whose name starts with a dot is not visited, wherever it stands in its
  directory and whatever it is: it is returned as it was (a hidden markdown file is not
  rewritten, a hidden directory is not entered) and the streams are those of the
  traversal of the other entries.
\<close>

theorem hidden_entries_skipped:
  "hidden name \<Longrightarrow>
     collect_files dir (es1 @ (name, e) # es2) s =
       (let (r1, s1) = collect_files dir es1 s;
            (r2, s2) = collect_files dir es2 s1
        in (r1 @ (name, e) # r2, s2))"
  by (simp add: collect_files_append case_prod_unfold Let_def)

theorem hidden_entries_skipped_witness:
  "hidden ''.drafts''
   \<and> collect_files ''docs/wiki''
        ([(''A.md'', File Read_write ''[a](x/y.md)'')]
         @ (''.drafts'', Dir [(''Plan.md'', File Read_write ''[a](x/y.md)'')])
         # [(''B.md'', File Read_write ''[b](z/w.md)'')]) io0
     = ([(''A.md'', File Read_write ''[a](y)'')]
         @ (''.drafts'', Dir [(''Plan.md'', File Read_write ''[a](x/y.md)'')])
         # [(''B.md'', File Read_write ''[b](w)'')],
        \<lparr>out = [''Transforming links in docs/wiki/A.md'',
                 ''Transforming links in docs/wiki/B.md''], err = []\<rparr>)"
proof -
  have h: "hidden ''.drafts''" by simp
  have a: "collect_files ''docs/wiki'' [(''A.md'', File Read_write ''[a](x/y.md)'')] io0
             = ([(''A.md'', File Read_write ''[a](y)'')],
                \<lparr>out = [''Transforming links in docs/wiki/A.md''], err = []\<rparr>)"
    by code_simp
  have b: "collect_files ''docs/wiki'' [(''B.md'', File Read_write ''[b](z/w.md)'')]
             \<lparr>out = [''Transforming links in docs/wiki/A.md''], err = []\<rparr>
             = ([(''B.md'', File Read_write ''[b](w)'')],
                \<lparr>out = [''Transforming links in docs/wiki/A.md'',
                         ''Transforming links in docs/wiki/B.md''], err = []\<rparr>)"
    by code_simp
  show ?thesis
    using hidden_entries_skipped [OF h, of "''docs/wiki''"
        "[(''A.md'', File Read_write ''[a](x/y.md)'')]"
        "Dir [(''Plan.md'', File Read_write ''[a](x/y.md)'')]"
        "[(''B.md'', File Read_write ''[b](z/w.md)'')]" io0]
    by (simp only: a b h Let_def prod.case simp_thms)
qed

end
